theory Spec2Isabelle
  imports Main "HOL-Library.Word"
begin

section \<open>Errors\<close>

text \<open>
  Exceptions of the program are values. \<open>TypeError\<close> and \<open>RangeError\<close> carry
  the message of the JavaScript exception; \<open>ThrownByUser\<close> stands for whatever a
  user-supplied pipe or format function throws.
\<close>

datatype error = TypeError string | RangeError string | ThrownByUser string

section \<open>Numbers\<close>

text \<open>
  The numbers of the model are the integers from \<open>-2^53\<close> to \<open>2^53 - 1\<close>. Each
  of them is a value of the type \<open>number\<close> of the platform, and the platform
  writes it in decimal, in \<open>ToString\<close> as in \<open>JSON.stringify\<close>; fractions,
  infinities, \<open>NaN\<close> and the integers beyond that range (which the platform
  rounds, and writes with an exponent from \<open>10^21\<close> up) are not values of the
  model. A number is carried by a word of 54 bits and read with \<open>sint\<close>; the
  program does no arithmetic on such a value except in \<open>Caller.create\<close>, which
  is done on the integer read from it.
\<close>

type_synonym number = "54 word"

section \<open>Array reads of the platform\<close>

text \<open>
  \<open>xs[i]\<close> in JavaScript is \<open>undefined\<close> outside \<open>0 \<le> i < xs.length\<close>;
  \<open>None\<close> is that \<open>undefined\<close>. Indices are modelled as integers.
\<close>

definition at_index :: "'a list \<Rightarrow> int \<Rightarrow> 'a option" where
  "at_index xs i = (if 0 \<le> i \<and> i < int (length xs) then Some (xs ! nat i) else None)"

text \<open>
  \<open>Array.prototype.slice(start, end)\<close>: a negative bound counts from the end, both
  bounds are clamped to the array, and an empty range gives the empty array.
\<close>

definition slice :: "'a list \<Rightarrow> int \<Rightarrow> int \<Rightarrow> 'a list" where
  "slice xs start fin =
     (let len = int (length xs);
          k = (if start < 0 then max (len + start) 0 else min start len);
          final = (if fin < 0 then max (len + fin) 0 else min fin len)
      in take (nat (final - k)) (drop (nat k) xs))"

section \<open>Call sites (caller.ts)\<close>

text \<open>
  A raw frame, \<open>NodeJS.CallSite\<close>: each getter returns a value or \<open>null\<close>
  (\<open>None\<close>).
\<close>

record CallSite =
  getFileName :: "string option"
  getMethodName :: "string option"
  getFunctionName :: "string option"
  getTypeName :: "string option"
  getLineNumber :: "number option"
  getColumnNumber :: "number option"

text \<open>
  \<open>x || undefined\<close>: a falsy getter result (\<open>null\<close>, the empty string, the number
  0) becomes \<open>undefined\<close>.
\<close>

definition str_or_undefined :: "string option \<Rightarrow> string option" where
  "str_or_undefined x = (case x of None \<Rightarrow> None | Some s \<Rightarrow> if s = [] then None else Some s)"

definition num_or_undefined :: "number option \<Rightarrow> number option" where
  "num_or_undefined x = (case x of None \<Rightarrow> None | Some n \<Rightarrow> if n = 0 then None else Some n)"

text \<open>The class \<open>Caller\<close>; an optional field is \<open>None\<close> when absent.\<close>

datatype Caller = Caller
  (fileName: "string option")
  (methodName: "string option")
  (functionName: "string option")
  (typeName: "string option")
  (line: "number option")
  (column: "number option")
  (trace: "Caller list option")

definition HANDLE_METHOD_NAME :: string where
  "HANDLE_METHOD_NAME = ''_handle''"

text \<open>
  Modelled from the spec: \<open>LOG_LEVELS\<close> is imported by caller.ts from the package
  index, whose declaration of it is not among the sources. It is the level
  vocabulary of the spec (and of the type \<open>Level\<close> in log.ts).
\<close>

definition LOG_LEVELS :: "string list" where
  "LOG_LEVELS = [''debug'', ''info'', ''warn'', ''error'', ''critical'', ''verbose'', ''trace'']"

definition MAX_CALLERS_COUNT :: int where
  "MAX_CALLERS_COUNT = 1"

text \<open>
  The fields the constructor reads off a frame that is there. The nested callers
  of \<open>trace\<close> are built by \<open>new Caller(cs)\<close>, with no parent frames.
\<close>

definition caller_of :: "CallSite \<Rightarrow> Caller list option \<Rightarrow> Caller" where
  "caller_of cs tr =
     Caller (str_or_undefined (getFileName cs)) (str_or_undefined (getMethodName cs))
            (str_or_undefined (getFunctionName cs)) (str_or_undefined (getTypeName cs))
            (num_or_undefined (getLineNumber cs)) (num_or_undefined (getColumnNumber cs)) tr"

text \<open>
  \<open>new Caller(callSite, parentCallSites)\<close>. The constructor calls
  \<open>callSite.getFileName()\<close> first: on \<open>undefined\<close> that is a \<open>TypeError\<close>.
\<close>

definition new_Caller :: "CallSite option \<Rightarrow> CallSite list option \<Rightarrow> error + Caller" where
  "new_Caller callSite parentCallSites =
     (case callSite of
        None \<Rightarrow> Inl (TypeError ''Cannot read properties of undefined (reading 'getFileName')'')
      | Some cs \<Rightarrow>
          Inr (caller_of cs (map_option (map (\<lambda>p. caller_of p None)) parentCallSites)))"

text \<open>
  The loop of \<open>Caller.create\<close> from index \<open>i\<close>, with the loop variables
  \<open>foundHandle\<close> and \<open>callSite\<close>; \<open>LOG_LEVELS.includes(null)\<close> is false.
\<close>

function create_loop ::
  "CallSite list \<Rightarrow> int \<Rightarrow> int \<Rightarrow> nat \<Rightarrow> bool \<Rightarrow> CallSite option \<Rightarrow> error + Caller" where
  "create_loop callSites level maxCallersCount i foundHandle callSite =
     (if i < length callSites then
        (let callSite' = callSites ! i;
             methodName = getMethodName callSite'
         in if \<not> foundHandle \<and> methodName = Some HANDLE_METHOD_NAME then
              create_loop callSites level maxCallersCount (i + 1) True (Some callSite')
            else if foundHandle \<and> (case methodName of None \<Rightarrow> False | Some m \<Rightarrow> m \<in> set LOG_LEVELS) then
              (let j = int i + level;
                   startIndex = j + 2;
                   endIndex = startIndex + maxCallersCount;
                   parentCallSites = slice callSites startIndex endIndex
               in new_Caller (at_index callSites (j + 1)) (Some parentCallSites))
            else create_loop callSites level maxCallersCount (i + 1) foundHandle (Some callSite'))
      else new_Caller callSite None)"
  by pat_completeness auto
termination
  by (relation "measure (\<lambda>(callSites, level, maxCallersCount, i, foundHandle, callSite). length callSites - i)") auto

declare create_loop.simps [simp del]

text \<open>\<open>Caller.create\<close> on the frames that \<open>_getCallSites\<close> returned.\<close>

definition create_on :: "CallSite list \<Rightarrow> int \<Rightarrow> int \<Rightarrow> error + Caller" where
  "create_on callSites level maxCallersCount =
     create_loop callSites level maxCallersCount 1 False (at_index callSites 0)"

section \<open>Stack capture (caller.ts)\<close>

text \<open>
  The values \<open>Error.prepareStackTrace\<close> can hold: the one read when the module was
  loaded (\<open>NATIVE_PREPARE_STACK_TRACE\<close>), the module's own identity hook, or any
  other function that other code has installed since.
\<close>

datatype prepare_hook =
  NATIVE_PREPARE_STACK_TRACE | OVERRIDED_PREPARE_STACK_TRACE | OtherHook nat

text \<open>
  The part of the platform the program reads and writes: the global hook, the raw
  frames that \<open>new Error()\<close> hands to the hook at the point of capture,
  \<open>wrapCallSite\<close> of source-map-support (external, so it may throw), the clock,
  the terminal width (\<open>undefined\<close> when the output is not a terminal), the statics
  \<open>Log.lineLength\<close> and \<open>Log.separator\<close>, and \<open>resolveSeparators\<close> of
  utils.ts, which is not among the sources and is taken as a parameter.
  \<open>captures\<close> counts the evaluations of \<open>new Error().stack\<close>.
  \<open>functionText\<close> is \<open>Function.prototype.toString\<close> on the functions that a
  \<open>Log\<close> has as members, by member name: the text of a method or of the class
  in the compiled program, which is not among the sources, and for a built-in
  function a text of the platform's choice.
\<close>

record world =
  prepareStackTrace :: prepare_hook
  raw_stack :: "CallSite list"
  wrapCallSite :: "CallSite \<Rightarrow> error + CallSite"
  captures :: nat
  now :: number
  columns :: "int option"
  lineLength :: "int option"
  separator :: string
  resolveSeparators :: "string \<Rightarrow> string \<Rightarrow> int option \<Rightarrow> string"
  functionText :: "string \<Rightarrow> string"

text \<open>\<open>xs.map(f)\<close> where \<open>f\<close> may throw: the first exception ends the map.\<close>

fun map_throwing :: "('a \<Rightarrow> error + 'b) \<Rightarrow> 'a list \<Rightarrow> error + 'b list" where
  "map_throwing f [] = Inr []"
| "map_throwing f (x # xs) =
     (case f x of
        Inl e \<Rightarrow> Inl e
      | Inr y \<Rightarrow> (case map_throwing f xs of Inl e \<Rightarrow> Inl e | Inr ys \<Rightarrow> Inr (y # ys)))"

text \<open>
  \<open>Caller._getCallSites\<close>, statement by statement: install the identity hook, read
  \<open>new Error().stack\<close> (with that hook, the raw frames), assign
  \<open>NATIVE_PREPARE_STACK_TRACE\<close> to the hook, map \<open>wrapCallSite\<close>.
\<close>

definition getCallSites :: "world \<Rightarrow> (error + CallSite list) \<times> world" where
  "getCallSites w =
     (let w1 = w\<lparr>prepareStackTrace := OVERRIDED_PREPARE_STACK_TRACE\<rparr>;
          callSites = raw_stack w1;
          w2 = w1\<lparr>captures := captures w1 + 1\<rparr>;
          w3 = w2\<lparr>prepareStackTrace := NATIVE_PREPARE_STACK_TRACE\<rparr>
      in (map_throwing (wrapCallSite w3) callSites, w3))"

text \<open>\<open>Caller.create(level, maxCallersCount)\<close>.\<close>

definition create :: "world \<Rightarrow> int \<Rightarrow> int \<Rightarrow> (error + Caller) \<times> world" where
  "create w level maxCallersCount =
     (case getCallSites w of
        (Inl e, w') \<Rightarrow> (Inl e, w')
      | (Inr callSites, w') \<Rightarrow> (create_on callSites level maxCallersCount, w'))"

section \<open>Values and records (log.ts)\<close>

text \<open>
  The values that \<open>meta\<close> and \<open>args\<close> hold are plain data: primitives and
  references to objects and arrays. Objects are shared and may be cyclic, so they
  live in a store; a reference is an index into it, and two references are the
  same object exactly when the indices are equal. Numbers are the numbers of
  the model. An object lists its own enumerable properties in enumeration
  order. A reference beyond the end of the store is read as an object with no
  properties.
\<close>

type_synonym addr = nat

datatype jsval = Undefined | Null | Bool bool | Num number | Str string | Ref addr

datatype obj = Obj "(string \<times> jsval) list" | Arr "jsval list"

type_synonym heap = "obj list"

definition heap_get :: "heap \<Rightarrow> addr \<Rightarrow> obj" where
  "heap_get h a = (if a < length h then h ! a else Obj [])"

datatype Level = Debug | Info | Warn | Error | Critical | Verbose | Trace

fun level_text :: "Level \<Rightarrow> string" where
  "level_text Debug = ''debug''"
| "level_text Info = ''info''"
| "level_text Warn = ''warn''"
| "level_text Error = ''error''"
| "level_text Critical = ''critical''"
| "level_text Verbose = ''verbose''"
| "level_text Trace = ''trace''"

text \<open>
  What \<open>this[propName]\<close> can give, \<open>this\<close> being an instance of \<open>Log\<close>: a plain
  value; the record's \<open>Caller\<close> instance; the array \<open>formats\<close>; the object
  \<open>pipes\<close>; a function that the instance inherits (a method of the class, the
  class itself under \<open>constructor\<close>, a function of \<open>Object.prototype\<close>), known
  by the name it is read under; and \<open>Log.prototype\<close>, which the accessor
  \<open>__proto__\<close> returns. Only plain values live in the store: the others are
  objects of the program itself that no user data refers to.
\<close>

datatype propval =
  PVal jsval | PCaller Caller | PFormats | PPipes | PFunction string | PPrototype

text \<open>
  The object \<open>pipes\<close> by its own properties: a name has no entry (\<open>None\<close>), a
  function, or some value that is not a function. A pipe is a function of the
  store and of its first argument (it does not read \<open>this\<close>); it returns a plain
  value or throws. The object is an ordinary object, as the object literals of
  the logger are: what it has no own property for, it inherits from
  \<open>Object.prototype\<close>.
\<close>

datatype pipe_entry = PipeFn "heap \<Rightarrow> propval \<Rightarrow> error + jsval" | NotAFunction jsval

type_synonym Pipes = "string \<Rightarrow> pipe_entry option"

text \<open>
  The properties of \<open>Object.prototype\<close> that are functions. Its one other
  property, \<open>__proto__\<close>, is an accessor and reads as an object.
\<close>

definition Object_prototype_functions :: "string list" where
  "Object_prototype_functions =
     [''constructor'', ''hasOwnProperty'', ''isPrototypeOf'', ''propertyIsEnumerable'',
      ''toLocaleString'', ''toString'', ''valueOf'', ''__defineGetter__'', ''__defineSetter__'',
      ''__lookupGetter__'', ''__lookupSetter__'']"

text \<open>The interface \<open>Message\<close>, in the key order of \<open>toMessage\<close>.\<close>

record Message =
  args :: jsval
  caller :: "Caller option"
  date :: number
  level :: Level
  meta :: jsval
  name :: "string option"

text \<open>
  A format is a string (a template, or the literal \<open>json\<close>) or a function called
  with the pipes as \<open>this\<close> and the message as argument; a function has its
  source text.
\<close>

datatype format =
  Template string | FormatFn string "Pipes \<Rightarrow> heap \<Rightarrow> Message \<Rightarrow> error + jsval"

text \<open>The class \<open>Log\<close>: the fields of the message and the remaining ones.\<close>

record Log = Message +
  formats :: "format list"
  pipes :: Pipes
  callerLevel :: number

text \<open>
  The constructor. The field initialiser \<open>date = Date.now()\<close> runs first, then
  the body assigns \<open>this.caller = Caller.create(callerLevel)\<close>; an exception of
  \<open>create\<close> leaves the constructor.
\<close>

definition new_Log ::
  "world \<Rightarrow> string option \<Rightarrow> format list \<Rightarrow> Pipes \<Rightarrow> jsval \<Rightarrow> Level \<Rightarrow> jsval \<Rightarrow> number
    \<Rightarrow> (error + Log) \<times> world" where
  "new_Log w name' formats' pipes' meta' level' args' callerLevel' =
     (let date' = now w in
      case create w (sint callerLevel') MAX_CALLERS_COUNT of
        (Inl e, w') \<Rightarrow> (Inl e, w')
      | (Inr c, w') \<Rightarrow>
          (Inr \<lparr>args = args', caller = Some c, date = date', level = level', meta = meta',
                name = name', formats = formats', pipes = pipes', callerLevel = callerLevel'\<rparr>, w'))"

text \<open>\<open>toMessage\<close> copies six fields; it reads nothing else.\<close>

definition toMessage :: "Log \<Rightarrow> Message" where
  "toMessage l =
     \<lparr>args = args l, caller = caller l, date = date l, level = level l, meta = meta l,
      name = name l\<rparr>"

section \<open>Text of values\<close>

text \<open>
  \<open>ToString\<close> of the platform, which \<open>String.prototype.replace\<close> applies to what
  the replacement function returns. A number of the model prints in decimal. An
  object prints as \<open>[object Object]\<close>, by the \<open>toString\<close> it inherits; when it
  has an own property \<open>toString\<close>, whose value is not a function since it is
  plain data, no method gives a primitive and a \<open>TypeError\<close> is thrown. An array
  prints its elements joined by commas, \<open>undefined\<close> and \<open>null\<close> as empty text,
  and an array that is already being joined as empty text.
\<close>

definition digit_char :: "nat \<Rightarrow> char" where
  "digit_char d = ''0123456789'' ! d"

fun nat_text :: "nat \<Rightarrow> string" where
  "nat_text n = (if n < 10 then [digit_char n] else nat_text (n div 10) @ [digit_char (n mod 10)])"

declare nat_text.simps [simp del]

definition int_text :: "int \<Rightarrow> string" where
  "int_text i = (if i < 0 then CHR ''-'' # nat_text (nat (- i)) else nat_text (nat i))"

fun join_with :: "string \<Rightarrow> string list \<Rightarrow> string" where
  "join_with sep [] = []"
| "join_with sep [x] = x"
| "join_with sep (x # y # ys) = x @ sep @ join_with sep (y # ys)"

function to_text :: "heap \<Rightarrow> addr list \<Rightarrow> jsval \<Rightarrow> error + string" where
  "to_text h joining Undefined = Inr ''undefined''"
| "to_text h joining Null = Inr ''null''"
| "to_text h joining (Bool b) = Inr (if b then ''true'' else ''false'')"
| "to_text h joining (Num n) = Inr (int_text (sint n))"
| "to_text h joining (Str s) = Inr s"
| "to_text h joining (Ref a) =
     (case heap_get h a of
        Obj ps \<Rightarrow>
          if map_of ps ''toString'' = None then Inr ''[object Object]''
          else Inl (TypeError ''Cannot convert object to primitive value'')
      | Arr xs \<Rightarrow>
          if a \<in> set joining then Inr []
          else (case map_throwing
                       (\<lambda>x. if x = Undefined \<or> x = Null then Inr []
                            else to_text h (a # joining) x) xs of
                  Inl e \<Rightarrow> Inl e
                | Inr texts \<Rightarrow> Inr (join_with '','' texts)))"
  by pat_completeness auto
termination
proof (relation "measure (\<lambda>(h, joining, v). card ({..<length h} - set joining))")
  show "wf (measure (\<lambda>(h, joining, v). card ({..<length h} - set joining)))"
    by simp
next
  fix h :: heap and joining :: "addr list" and a :: addr and xs x
  assume arr: "heap_get h a = Arr xs" and fresh: "a \<notin> set joining"
  from arr have "a < length h"
    by (auto simp: heap_get_def split: if_splits)
  with fresh have "{..<length h} - set (a # joining) \<subset> {..<length h} - set joining"
    by auto
  then have "card ({..<length h} - set (a # joining)) < card ({..<length h} - set joining)"
    by (intro psubset_card_mono) auto
  then show "((h, a # joining, x), (h, joining, Ref a))
      \<in> measure (\<lambda>(h, joining, v). card ({..<length h} - set joining))"
    by simp
qed

text \<open>
  \<open>ToString\<close> of the object \<open>pipes\<close>, which is \<open>OrdinaryToPrimitive\<close> with the
  hint \<open>string\<close>: the property \<open>toString\<close> and then the property \<open>valueOf\<close> are
  read; one that is a function is called on the object with no argument, and
  its result is taken unless it is an object. The inherited \<open>toString\<close> gives
  \<open>[object Object]\<close>, the inherited \<open>valueOf\<close> gives the object itself, and
  when neither gives a primitive a \<open>TypeError\<close> is thrown. \<open>None\<close> means that
  the next property is to be tried.
\<close>

definition try_method :: "heap \<Rightarrow> pipe_entry \<Rightarrow> (error + string) option" where
  "try_method h entry =
     (case entry of
        NotAFunction v \<Rightarrow> None
      | PipeFn f \<Rightarrow>
          (case f h (PVal Undefined) of
             Inl e \<Rightarrow> Some (Inl e)
           | Inr (Ref a) \<Rightarrow> None
           | Inr v \<Rightarrow> Some (to_text h [] v)))"

definition pipes_text :: "heap \<Rightarrow> Pipes \<Rightarrow> error + string" where
  "pipes_text h ps =
     (case (case ps ''toString'' of
              None \<Rightarrow> Some (Inr ''[object Object]'')
            | Some entry \<Rightarrow> try_method h entry) of
        Some r \<Rightarrow> r
      | None \<Rightarrow>
          (case (case ps ''valueOf'' of None \<Rightarrow> None | Some entry \<Rightarrow> try_method h entry) of
             Some r \<Rightarrow> r
           | None \<Rightarrow> Inl (TypeError ''Cannot convert object to primitive value'')))"

text \<open>The text of an element of \<open>formats\<close>: the string, or the text of the function.\<close>

fun format_text :: "format \<Rightarrow> string" where
  "format_text (Template s) = s"
| "format_text (FormatFn source fn) = source"

text \<open>
  \<open>ToString\<close> of what \<open>this[propName]\<close> gave. An instance of \<open>Caller\<close> and
  \<open>Log.prototype\<close> print as \<open>[object Object]\<close>, the array \<open>formats\<close> prints its
  elements joined by commas, and a function prints as its text.
\<close>

definition prop_text :: "world \<Rightarrow> heap \<Rightarrow> Log \<Rightarrow> propval \<Rightarrow> error + string" where
  "prop_text w h l p =
     (case p of
        PVal v \<Rightarrow> to_text h [] v
      | PCaller c \<Rightarrow> Inr ''[object Object]''
      | PFormats \<Rightarrow> Inr (join_with '','' (map format_text (formats l)))
      | PPipes \<Rightarrow> pipes_text h (pipes l)
      | PFunction member \<Rightarrow> Inr (functionText w member)
      | PPrototype \<Rightarrow> Inr ''[object Object]'')"

section \<open>Templates (log.ts)\<close>

text \<open>
  Strings are sequences of code units below 256. The character classes of
  \<open>FORMAT_REPLACE_MASK\<close>: \<open>\s\<close>, \<open>[a-zA-Z_$]\<close> and \<open>[0-9a-zA-Z_$]\<close>.
\<close>

definition is_space :: "char \<Rightarrow> bool" where
  "is_space c = (c \<in> set [CHR 0x09, CHR 0x0A, CHR 0x0B, CHR 0x0C, CHR 0x0D, CHR 0x20, CHR 0xA0])"

definition ident_start :: "char \<Rightarrow> bool" where
  "ident_start c =
     (c \<in> set (''abcdefghijklmnopqrstuvwxyz'' @ ''ABCDEFGHIJKLMNOPQRSTUVWXYZ'' @ ''_$''))"

definition ident_part :: "char \<Rightarrow> bool" where
  "ident_part c = (c \<in> set ''0123456789'' \<or> ident_start c)"

text \<open>
  \<open>[a-zA-Z_$][0-9a-zA-Z_$]+\<close> at the head of a string: the identifier and the
  rest. The pattern asks for at least one character after the first, so an
  identifier of one character does not match.
\<close>

definition take_ident :: "string \<Rightarrow> (string \<times> string) option" where
  "take_ident s =
     (case s of
        [] \<Rightarrow> None
      | c # cs \<Rightarrow>
          if ident_start c \<and> takeWhile ident_part cs \<noteq> []
          then Some (c # takeWhile ident_part cs, dropWhile ident_part cs)
          else None)"

text \<open>
  The parts of \<open>FORMAT_REPLACE_MASK\<close> behind the property name, each at the head
  of a string and returning the rest: the group \<open>\s*\|\s*(ident)\<close>, and the
  closing \<open>\s*\}\}\<close>.
\<close>

definition match_group :: "string \<Rightarrow> (string \<times> string) option" where
  "match_group s =
     (case dropWhile is_space s of
        [] \<Rightarrow> None
      | d # r \<Rightarrow> if d = CHR ''|'' then take_ident (dropWhile is_space r) else None)"

definition match_close :: "string \<Rightarrow> string option" where
  "match_close s =
     (case dropWhile is_space s of
        e1 # e2 # rest \<Rightarrow> if e1 = CHR ''}'' \<and> e2 = CHR ''}'' then Some rest else None
      | _ \<Rightarrow> None)"

text \<open>
  \<open>(?:group)?\<close> followed by the closing: the group is tried first, and when the
  group or the closing behind it does not match, the pattern is tried without
  the group.
\<close>

definition match_tail :: "string \<Rightarrow> (string option \<times> string) option" where
  "match_tail s =
     (case (case match_group s of
              None \<Rightarrow> None
            | Some (pipeName, r) \<Rightarrow> map_option (\<lambda>rest. (Some pipeName, rest)) (match_close r)) of
        Some m \<Rightarrow> Some m
      | None \<Rightarrow> map_option (\<lambda>rest. (None, rest)) (match_close s))"

text \<open>
  One match of \<open>FORMAT_REPLACE_MASK\<close> at the head of a string: the property
  name, the pipe name when the optional group matched, and the rest of the
  string. The greedy quantifiers \<open>\s*\<close> and \<open>[0-9a-zA-Z_$]+\<close> are each followed
  by a character outside their own class, so giving characters back never
  helps and the longest run is the only choice.
\<close>

definition match_at :: "string \<Rightarrow> (string \<times> string option \<times> string) option" where
  "match_at s =
     (case s of
        c1 # c2 # r0 \<Rightarrow>
          if c1 = CHR ''{'' \<and> c2 = CHR ''{'' then
            (case take_ident (dropWhile is_space r0) of
               None \<Rightarrow> None
             | Some (propName, r1) \<Rightarrow>
                 (case match_tail r1 of
                    None \<Rightarrow> None
                  | Some (pipeName, rest) \<Rightarrow> Some (propName, pipeName, rest)))
          else None
      | _ \<Rightarrow> None)"

text \<open>
  The global replace walks the string: at each position the pattern matches and
  the walk continues behind the match, or the character is copied. The result is
  the template as a list of copied characters and placeholders.
\<close>

datatype segment = Lit char | Hole string "string option"

fun tokenize_from :: "nat \<Rightarrow> string \<Rightarrow> segment list" where
  "tokenize_from skip [] = []"
| "tokenize_from skip (c # cs) =
     (if 0 < skip then tokenize_from (skip - 1) cs
      else (case match_at (c # cs) of
              None \<Rightarrow> Lit c # tokenize_from 0 cs
            | Some (propName, pipeName, rest) \<Rightarrow>
                Hole propName pipeName # tokenize_from (length cs - length rest) cs))"

definition tokenize :: "string \<Rightarrow> segment list" where
  "tokenize f = tokenize_from 0 f"



text \<open>
  \<open>this[propName as keyof Message]\<close> on an instance of \<open>Log\<close>. The cast is
  unchecked, so the name reads any property of the object: its nine fields, the
  methods \<open>messages\<close> and \<open>toMessage\<close> and the class under \<open>constructor\<close> from
  \<open>Log.prototype\<close>, and behind them the properties of \<open>Object.prototype\<close>. Any
  other name reads as \<open>undefined\<close>.
\<close>

definition this_prop :: "Log \<Rightarrow> string \<Rightarrow> propval" where
  "this_prop l propName =
     (if propName = ''args'' then PVal (args l)
      else if propName = ''caller'' then (case caller l of None \<Rightarrow> PVal Null | Some c \<Rightarrow> PCaller c)
      else if propName = ''date'' then PVal (Num (date l))
      else if propName = ''level'' then PVal (Str (level_text (level l)))
      else if propName = ''meta'' then PVal (meta l)
      else if propName = ''name'' then (case name l of None \<Rightarrow> PVal Undefined | Some n \<Rightarrow> PVal (Str n))
      else if propName = ''callerLevel'' then PVal (Num (callerLevel l))
      else if propName = ''formats'' then PFormats
      else if propName = ''pipes'' then PPipes
      else if propName = ''messages'' \<or> propName = ''toMessage'' then PFunction propName
      else if propName \<in> set Object_prototype_functions then PFunction propName
      else if propName = ''__proto__'' then PPrototype
      else PVal Undefined)"

text \<open>The message reads \<open>Pipe property "NAME" is not a function\<close>; \<open>CHR 0x22\<close> is the double quote.\<close>

definition pipe_error :: "string \<Rightarrow> error" where
  "pipe_error pipeName = TypeError (''Pipe property '' @ [CHR 0x22] @ pipeName @ [CHR 0x22] @ '' is not a function'')"

text \<open>
  A function of \<open>Object.prototype\<close> called as \<open>pipe(prop)\<close>, that is with
  \<open>undefined\<close> as \<open>this\<close>, and \<open>ToString\<close> of what it returns. \<open>toString\<close>
  returns \<open>[object Undefined]\<close> whatever the argument. \<open>constructor\<close> is
  \<open>Object\<close>: it returns a new empty object for \<open>undefined\<close> and \<open>null\<close>, and for
  any other argument the argument as an object, which prints as the argument
  does. \<open>isPrototypeOf\<close> returns \<open>false\<close> for an argument that is not an
  object. \<open>hasOwnProperty\<close> and \<open>propertyIsEnumerable\<close> convert the argument
  to a property key first. In every other case the function converts \<open>this\<close> to
  an object, which throws a \<open>TypeError\<close>.
\<close>

definition is_object :: "propval \<Rightarrow> bool" where
  "is_object p = (case p of PVal (Ref a) \<Rightarrow> True | PVal v \<Rightarrow> False | _ \<Rightarrow> True)"

definition undefined_receiver :: error where
  "undefined_receiver = TypeError ''Cannot convert undefined or null to object''"

definition call_inherited :: "world \<Rightarrow> heap \<Rightarrow> Log \<Rightarrow> string \<Rightarrow> propval \<Rightarrow> error + string" where
  "call_inherited w h l pipeName prop =
     (if pipeName = ''toString'' then Inr ''[object Undefined]''
      else if pipeName = ''constructor'' then
        (if prop = PVal Undefined \<or> prop = PVal Null then Inr ''[object Object]''
         else prop_text w h l prop)
      else if pipeName = ''isPrototypeOf'' then
        (if is_object prop then Inl undefined_receiver else Inr ''false'')
      else if pipeName = ''hasOwnProperty'' \<or> pipeName = ''propertyIsEnumerable'' then
        (case prop_text w h l prop of Inl e \<Rightarrow> Inl e | Inr key \<Rightarrow> Inl undefined_receiver)
      else if pipeName = ''toLocaleString'' then
        Inl (TypeError ''Object.prototype.toLocaleString called on null or undefined'')
      else Inl undefined_receiver)"

text \<open>
  The replacement function of \<open>messages\<close>. With a pipe name,
  \<open>this.pipes[pipeName]\<close> is read: the own property of that name, or else the
  property that \<open>Object.prototype\<close> has under it. What is read must be a
  function, or a \<open>TypeError\<close> naming the pipe is thrown. \<open>replace\<close> applies
  \<open>ToString\<close> to what the function returns.
\<close>

definition replace_placeholder ::
  "world \<Rightarrow> heap \<Rightarrow> Log \<Rightarrow> string \<Rightarrow> string option \<Rightarrow> error + string" where
  "replace_placeholder w h l propName pipeName =
     (let prop = this_prop l propName in
      case pipeName of
        None \<Rightarrow> prop_text w h l prop
      | Some pn \<Rightarrow>
          (case pipes l pn of
             Some (PipeFn pipe) \<Rightarrow>
               (case pipe h prop of Inl e \<Rightarrow> Inl e | Inr v \<Rightarrow> to_text h [] v)
           | Some (NotAFunction v) \<Rightarrow> Inl (pipe_error pn)
           | None \<Rightarrow>
               if pn \<in> set Object_prototype_functions then call_inherited w h l pn prop
               else Inl (pipe_error pn)))"

text \<open>
  The replacement function runs on the matches from left to right; the first
  exception leaves \<open>replace\<close>.
\<close>

fun substitute :: "world \<Rightarrow> heap \<Rightarrow> Log \<Rightarrow> segment list \<Rightarrow> error + string" where
  "substitute w h l [] = Inr []"
| "substitute w h l (Lit c # segs) =
     (case substitute w h l segs of Inl e \<Rightarrow> Inl e | Inr t \<Rightarrow> Inr (c # t))"
| "substitute w h l (Hole propName pipeName # segs) =
     (case replace_placeholder w h l propName pipeName of
        Inl e \<Rightarrow> Inl e
      | Inr s \<Rightarrow> (case substitute w h l segs of Inl e \<Rightarrow> Inl e | Inr t \<Rightarrow> Inr (s @ t)))"

text \<open>\<open>s.includes(sep)\<close> and \<open>s.split(sep).join('\n')\<close> for a separator that is not empty.\<close>

fun includes_str :: "string \<Rightarrow> string \<Rightarrow> bool" where
  "includes_str [] sep = (sep = [])"
| "includes_str (c # cs) sep = (take (length sep) (c # cs) = sep \<or> includes_str cs sep)"

fun split_join :: "string \<Rightarrow> nat \<Rightarrow> string \<Rightarrow> string" where
  "split_join sep skip [] = []"
| "split_join sep skip (c # cs) =
     (if 0 < skip then split_join sep (skip - 1) cs
      else if take (length sep) (c # cs) = sep then CHR 0x0A # split_join sep (length sep - 1) cs
      else c # split_join sep 0 cs)"

text \<open>The branch of \<open>messages\<close> for a template string.\<close>

definition render_template :: "world \<Rightarrow> heap \<Rightarrow> Log \<Rightarrow> string \<Rightarrow> (error + jsval) \<times> world" where
  "render_template w h l f =
     (let w' = w\<lparr>lineLength := columns w\<rparr> in
      case substitute w' h l (tokenize f) of
        Inl e \<Rightarrow> (Inl e, w')
      | Inr stringMessage \<Rightarrow>
          if separator w' = [] \<or> \<not> includes_str stringMessage (separator w')
          then (Inr (Str stringMessage), w')
          else if lineLength w' = Some 0
          then (Inr (Str (split_join (separator w') 0 stringMessage)), w')
          else (Inr (Str (resolveSeparators w' stringMessage (separator w') (lineLength w'))), w'))"

section \<open>JSON (log.ts)\<close>

text \<open>A JSON document, and the text \<open>JSON.stringify\<close> writes for it (no white space).\<close>

datatype json =
  JNull | JBool bool | JNum number | JStr string | JArr "json list" | JObj "(string \<times> json) list"

definition hex_char :: "nat \<Rightarrow> char" where
  "hex_char d = ''0123456789abcdef'' ! d"

text \<open>
  \<open>QuoteJSONString\<close>: the quote, the backslash and the control characters are
  escaped, every other code unit is copied.
\<close>

definition escape_char :: "char \<Rightarrow> string" where
  "escape_char c =
     (if c = CHR 0x22 then [CHR 0x5C, CHR 0x22]
      else if c = CHR 0x5C then [CHR 0x5C, CHR 0x5C]
      else if c = CHR 0x08 then [CHR 0x5C, CHR ''b'']
      else if c = CHR 0x0C then [CHR 0x5C, CHR ''f'']
      else if c = CHR 0x0A then [CHR 0x5C, CHR ''n'']
      else if c = CHR 0x0D then [CHR 0x5C, CHR ''r'']
      else if c = CHR 0x09 then [CHR 0x5C, CHR ''t'']
      else if (of_char c :: nat) < 32
      then [CHR 0x5C, CHR ''u'', CHR ''0'', CHR ''0'', hex_char (of_char c div 16), hex_char (of_char c mod 16)]
      else [c])"

definition quote :: "string \<Rightarrow> string" where
  "quote s = CHR 0x22 # concat (map escape_char s) @ [CHR 0x22]"

fun json_text :: "json \<Rightarrow> string" where
  "json_text JNull = ''null''"
| "json_text (JBool b) = (if b then ''true'' else ''false'')"
| "json_text (JNum n) = int_text (sint n)"
| "json_text (JStr s) = quote s"
| "json_text (JArr js) = ''['' @ join_with '','' (map json_text js) @ '']''"
| "json_text (JObj ms) =
     ''{'' @ join_with '','' (map (\<lambda>(k, j). quote k @ '':'' @ json_text j) ms) @ ''}''"

text \<open>
  The replacer that \<open>messages\<close> hands to \<open>JSON.stringify\<close>, with the array
  \<open>cache\<close> it closes over: an object that is in the cache is replaced by the
  marker, any other object is pushed and returned, and what is not an object
  (or is \<open>null\<close>) is returned.
\<close>

definition circular_marker :: string where
  "circular_marker = ''[circular]''"

definition replacer :: "addr list \<Rightarrow> jsval \<Rightarrow> jsval \<times> addr list" where
  "replacer cache v =
     (case v of
        Ref a \<Rightarrow> if a \<in> set cache then (Str circular_marker, cache) else (v, cache @ [a])
      | _ \<Rightarrow> (v, cache))"

text \<open>
  Sequencing of two steps of the serialisation: the second runs on the result
  and the cache of the first, unless the first threw or did not end.
\<close>

definition and_then ::
  "(error + 'a \<times> addr list) option \<Rightarrow> ('a \<Rightarrow> addr list \<Rightarrow> (error + 'b \<times> addr list) option)
    \<Rightarrow> (error + 'b \<times> addr list) option" where
  "and_then r k =
     (case r of None \<Rightarrow> None | Some (Inl e) \<Rightarrow> Some (Inl e) | Some (Inr (x, cache)) \<Rightarrow> k x cache)"

text \<open>What a value that is not an object serialises to; \<open>None\<close> is \<open>undefined\<close>.\<close>

definition primitive_json :: "jsval \<Rightarrow> json option" where
  "primitive_json v =
     (case v of
        Null \<Rightarrow> Some JNull
      | Bool b \<Rightarrow> Some (JBool b)
      | Num i \<Rightarrow> Some (JNum i)
      | Str s \<Rightarrow> Some (JStr s)
      | _ \<Rightarrow> None)"

text \<open>
  \<open>JSON.stringify\<close> with that replacer, as the platform specifies it
  (\<open>SerializeJSONProperty\<close>, \<open>SerializeJSONArray\<close>, \<open>SerializeJSONObject\<close>):
  the replacer runs on every value first; an object that is already on the
  stack of objects being serialised is a \<open>TypeError\<close>; \<open>undefined\<close> is left
  out of an object and written \<open>null\<close> in an array. The first argument bounds
  the depth of the recursion: \<open>None\<close> means that the recursion did not end
  within it.
\<close>

function (sequential) ser_value ::
      "nat \<Rightarrow> heap \<Rightarrow> addr list \<Rightarrow> addr list \<Rightarrow> jsval \<Rightarrow> (error + json option \<times> addr list) option"
  and ser_elems ::
      "nat \<Rightarrow> heap \<Rightarrow> addr list \<Rightarrow> addr list \<Rightarrow> jsval list \<Rightarrow> (error + json list \<times> addr list) option"
  and ser_props ::
      "nat \<Rightarrow> heap \<Rightarrow> addr list \<Rightarrow> addr list \<Rightarrow> (string \<times> jsval) list
        \<Rightarrow> (error + (string \<times> json) list \<times> addr list) option"
where
  "ser_value 0 h stack cache v = None"
| "ser_value (Suc n) h stack cache v =
     (case replacer cache v of
        (Ref a, cache') \<Rightarrow>
          if a \<in> set stack
          then Some (Inl (TypeError ''Converting circular structure to JSON''))
          else (case heap_get h a of
                  Arr xs \<Rightarrow>
                    and_then (ser_elems n h (a # stack) cache' xs)
                      (\<lambda>js cache''. Some (Inr (Some (JArr js), cache'')))
                | Obj ps \<Rightarrow>
                    and_then (ser_props n h (a # stack) cache' ps)
                      (\<lambda>ms cache''. Some (Inr (Some (JObj ms), cache''))))
      | (v', cache') \<Rightarrow> Some (Inr (primitive_json v', cache')))"
| "ser_elems n h stack cache [] = Some (Inr ([], cache))"
| "ser_elems n h stack cache (x # xs) =
     and_then (ser_value n h stack cache x)
       (\<lambda>r cache'. and_then (ser_elems n h stack cache' xs)
          (\<lambda>js cache''. Some (Inr ((case r of None \<Rightarrow> JNull | Some j \<Rightarrow> j) # js, cache''))))"
| "ser_props n h stack cache [] = Some (Inr ([], cache))"
| "ser_props n h stack cache ((k, x) # ps) =
     and_then (ser_value n h stack cache x)
       (\<lambda>r cache'. and_then (ser_props n h stack cache' ps)
          (\<lambda>ms cache''. Some (Inr ((case r of None \<Rightarrow> [] | Some j \<Rightarrow> [(k, j)]) @ ms, cache''))))"

  by pat_completeness auto
termination
  by (relation "inv_image (less_than <*lex*> less_than <*lex*> less_than)
       (\<lambda>x. case x of
           Inl (n, h, st, c, v) \<Rightarrow> (n, 0::nat, 0::nat)
         | Inr (Inl (n, h, st, c, xs)) \<Rightarrow> (n, 1, length xs)
         | Inr (Inr (n, h, st, c, ps)) \<Rightarrow> (n, 1, length ps))") auto

text \<open>
  The \<open>Caller\<close> instance of a record as JSON: its fields in the order the
  constructor assigns them, the absent ones left out.
\<close>

definition member :: "string \<Rightarrow> json option \<Rightarrow> (string \<times> json) list" where
  "member k r = (case r of None \<Rightarrow> [] | Some j \<Rightarrow> [(k, j)])"

fun caller_json :: "Caller \<Rightarrow> json" where
  "caller_json (Caller fileName' methodName' functionName' typeName' line' column' trace') =
     JObj (member ''fileName'' (map_option JStr fileName')
         @ member ''methodName'' (map_option JStr methodName')
         @ member ''functionName'' (map_option JStr functionName')
         @ member ''typeName'' (map_option JStr typeName')
         @ member ''line'' (map_option JNum line')
         @ member ''column'' (map_option JNum column')
         @ member ''trace'' (map_option (\<lambda>cs. JArr (map caller_json cs)) trace'))"

text \<open>
  \<open>JSON.stringify(jsonMessage, replacer)\<close> on the object that \<open>toMessage\<close>
  returns. The message object and the \<open>Caller\<close> instances are objects the
  program has just made, which no value of \<open>args\<close> or \<open>meta\<close> refers to: the
  replacer pushes them and never meets them again, so they are left out of the
  modelled cache and stack. The keys are visited in the order \<open>args\<close>,
  \<open>caller\<close>, \<open>date\<close>, \<open>level\<close>, \<open>meta\<close>, \<open>name\<close>, and one cache serves the
  whole call.
\<close>

definition message_json :: "nat \<Rightarrow> heap \<Rightarrow> Message \<Rightarrow> (error + json) option" where
  "message_json n h m =
     (case ser_value n h [] [] (args m) of
        None \<Rightarrow> None
      | Some (Inl e) \<Rightarrow> Some (Inl e)
      | Some (Inr (jargs, cache1)) \<Rightarrow>
          (case ser_value n h [] cache1 (meta m) of
             None \<Rightarrow> None
           | Some (Inl e) \<Rightarrow> Some (Inl e)
           | Some (Inr (jmeta, cache2)) \<Rightarrow>
               Some (Inr (JObj
                 (member ''args'' jargs
                  @ member ''caller'' (Some (case caller m of None \<Rightarrow> JNull | Some c \<Rightarrow> caller_json c))
                  @ member ''date'' (Some (JNum (date m)))
                  @ member ''level'' (Some (JStr (level_text (level m))))
                  @ member ''meta'' jmeta
                  @ member ''name'' (map_option JStr (name m)))))))"

text \<open>
  The depth the serialisation is given: one more than the number of objects in
  the store. Recursion that does not end within it is reported as the
  platform reports runaway recursion, by a \<open>RangeError\<close>.
\<close>

definition stringify_message :: "heap \<Rightarrow> Message \<Rightarrow> error + string" where
  "stringify_message h m =
     (case message_json (Suc (length h)) h m of
        None \<Rightarrow> Inl (RangeError ''Maximum call stack size exceeded'')
      | Some (Inl e) \<Rightarrow> Inl e
      | Some (Inr j) \<Rightarrow> Inr (json_text j))"

text \<open>The number of objects of the store that the replacer has not pushed yet.\<close>

definition uncached :: "heap \<Rightarrow> addr list \<Rightarrow> nat" where
  "uncached h cache = card ({..<length h} - set cache)"

section \<open>Decoding JSON\<close>

text \<open>
  \<open>JSON.parse\<close> of the platform, for the texts whose numbers are numbers of
  the model: white space between the tokens, the literals, integers without a
  leading zero, strings with their escapes, arrays and objects. The result is
  the document and the text behind it; \<open>None\<close> means that the text is not JSON
  (or holds a number with a fraction or an exponent, or an integer that is not
  a number of the model). This definition follows the
  JSON grammar, not the code of the program: it is what "decoded form" means in
  the specification.
\<close>

definition is_json_ws :: "char \<Rightarrow> bool" where
  "is_json_ws c = (c \<in> set [CHR 0x20, CHR 0x09, CHR 0x0A, CHR 0x0D])"

definition is_digit :: "char \<Rightarrow> bool" where
  "is_digit c = (c \<in> set ''0123456789'')"

definition digit_value :: "char \<Rightarrow> nat" where
  "digit_value c = of_char c - 48"

definition digits_value :: "string \<Rightarrow> nat" where
  "digits_value ds = foldl (\<lambda>a c. 10 * a + digit_value c) 0 ds"

definition hex_value :: "char \<Rightarrow> nat option" where
  "hex_value c =
     (if is_digit c then Some (of_char c - 48)
      else if c \<in> set ''abcdef'' then Some (of_char c - 87)
      else if c \<in> set ''ABCDEF'' then Some (of_char c - 55)
      else None)"

definition unescape :: "char \<Rightarrow> char option" where
  "unescape e =
     (if e = CHR 0x22 then Some (CHR 0x22)
      else if e = CHR 0x5C then Some (CHR 0x5C)
      else if e = CHR ''/'' then Some (CHR ''/'')
      else if e = CHR ''b'' then Some (CHR 0x08)
      else if e = CHR ''f'' then Some (CHR 0x0C)
      else if e = CHR ''n'' then Some (CHR 0x0A)
      else if e = CHR ''r'' then Some (CHR 0x0D)
      else if e = CHR ''t'' then Some (CHR 0x09)
      else None)"

text \<open>
  The characters of a string behind its opening quote, up to the closing quote.
  An escape \<open>\uXXXX\<close> is accepted for the code units below 256 that strings
  hold here.
\<close>

fun parse_chars :: "string \<Rightarrow> (string \<times> string) option" where
  "parse_chars [] = None"
| "parse_chars (c # cs) =
     (if c = CHR 0x22 then Some ([], cs)
      else if c = CHR 0x5C then
        (case cs of
           [] \<Rightarrow> None
         | e # r \<Rightarrow>
             if e = CHR ''u'' then
               (case r of
                  h1 # h2 # h3 # h4 # r' \<Rightarrow>
                    (case (hex_value h1, hex_value h2, hex_value h3, hex_value h4) of
                       (Some d1, Some d2, Some d3, Some d4) \<Rightarrow>
                         if d1 = 0 \<and> d2 = 0
                         then map_option (\<lambda>(s, rest). (char_of (16 * d3 + d4) # s, rest)) (parse_chars r')
                         else None
                     | _ \<Rightarrow> None)
                | _ \<Rightarrow> None)
             else (case unescape e of
                     None \<Rightarrow> None
                   | Some d \<Rightarrow> map_option (\<lambda>(s, rest). (d # s, rest)) (parse_chars r)))
      else if (of_char c :: nat) < 32 then None
      else map_option (\<lambda>(s, rest). (c # s, rest)) (parse_chars cs))"

definition parse_integer :: "string \<Rightarrow> (int \<times> string) option" where
  "parse_integer s =
     (let negative = (s \<noteq> [] \<and> hd s = CHR ''-'');
          t = (if negative then tl s else s);
          ds = takeWhile is_digit t
      in if ds = [] \<or> (hd ds = CHR ''0'' \<and> 1 < length ds) then None
         else Some (if negative then - int (digits_value ds) else int (digits_value ds),
                    dropWhile is_digit t))"

text \<open>A number of the text is decoded when it is a number of the model.\<close>

definition parse_number :: "string \<Rightarrow> (number \<times> string) option" where
  "parse_number s =
     (case parse_integer s of
        None \<Rightarrow> None
      | Some (i, rest) \<Rightarrow>
          if - (2 ^ 53) \<le> i \<and> i < 2 ^ 53 then Some (word_of_int i, rest) else None)"

function (sequential) parse_value :: "nat \<Rightarrow> string \<Rightarrow> (json \<times> string) option"
  and parse_elems :: "nat \<Rightarrow> string \<Rightarrow> (json list \<times> string) option"
  and parse_members :: "nat \<Rightarrow> string \<Rightarrow> ((string \<times> json) list \<times> string) option"
where
  "parse_value 0 s = None"
| "parse_value (Suc n) s =
     (case dropWhile is_json_ws s of
        [] \<Rightarrow> None
      | c # r \<Rightarrow>
          if c = CHR 0x22 then
            (case parse_chars r of None \<Rightarrow> None | Some (str, rest) \<Rightarrow> Some (JStr str, rest))
          else if c = CHR ''['' then
            (case dropWhile is_json_ws r of
               [] \<Rightarrow> None
             | e # r' \<Rightarrow>
                 if e = CHR '']'' then Some (JArr [], r')
                 else (case parse_elems n r of None \<Rightarrow> None | Some (js, rest) \<Rightarrow> Some (JArr js, rest)))
          else if c = CHR ''{'' then
            (case dropWhile is_json_ws r of
               [] \<Rightarrow> None
             | e # r' \<Rightarrow>
                 if e = CHR ''}'' then Some (JObj [], r')
                 else (case parse_members n r of None \<Rightarrow> None | Some (ms, rest) \<Rightarrow> Some (JObj ms, rest)))
          else if take 4 (c # r) = ''null'' then Some (JNull, drop 4 (c # r))
          else if take 4 (c # r) = ''true'' then Some (JBool True, drop 4 (c # r))
          else if take 5 (c # r) = ''false'' then Some (JBool False, drop 5 (c # r))
          else (case parse_number (c # r) of None \<Rightarrow> None | Some (i, rest) \<Rightarrow> Some (JNum i, rest)))"
| "parse_elems n s =
     (case parse_value n s of
        None \<Rightarrow> None
      | Some (j, r) \<Rightarrow>
          (case dropWhile is_json_ws r of
             [] \<Rightarrow> None
           | d # r' \<Rightarrow>
               if d = CHR '','' then
                 (case n of
                    0 \<Rightarrow> None
                  | Suc m \<Rightarrow>
                      (case parse_elems m r' of None \<Rightarrow> None | Some (js, rest) \<Rightarrow> Some (j # js, rest)))
               else if d = CHR '']'' then Some ([j], r')
               else None))"
| "parse_members n s =
     (case dropWhile is_json_ws s of
        [] \<Rightarrow> None
      | c # r \<Rightarrow>
          if c = CHR 0x22 then
            (case parse_chars r of
               None \<Rightarrow> None
             | Some (k, r1) \<Rightarrow>
                 (case dropWhile is_json_ws r1 of
                    [] \<Rightarrow> None
                  | c2 # r2 \<Rightarrow>
                      if c2 = CHR '':'' then
                        (case parse_value n r2 of
                           None \<Rightarrow> None
                         | Some (j, r3) \<Rightarrow>
                             (case dropWhile is_json_ws r3 of
                                [] \<Rightarrow> None
                              | d # r4 \<Rightarrow>
                                  if d = CHR '','' then
                                    (case n of
                                       0 \<Rightarrow> None
                                     | Suc m \<Rightarrow>
                                         (case parse_members m r4 of
                                            None \<Rightarrow> None
                                          | Some (ms, rest) \<Rightarrow> Some ((k, j) # ms, rest)))
                                  else if d = CHR ''}'' then Some ([(k, j)], r4)
                                  else None))
                      else None))
          else None)"
  by pat_completeness auto
termination
  by (relation "inv_image (less_than <*lex*> less_than)
       (\<lambda>x. case x of
           Inl (n, s) \<Rightarrow> (n, 0::nat)
         | Inr (Inl (n, s)) \<Rightarrow> (n, 1)
         | Inr (Inr (n, s)) \<Rightarrow> (n, 1))") auto

declare parse_value.simps [simp del] parse_elems.simps [simp del] parse_members.simps [simp del]

text \<open>The characters a JSON value can start with.\<close>

definition value_start :: "char \<Rightarrow> bool" where
  "value_start c = (c \<in> set ''ntf-0123456789'' \<or> c = CHR 0x22 \<or> c = CHR ''['' \<or> c = CHR ''{'')"

text \<open>The whole text is one document, with nothing but white space behind it.\<close>

definition JSON_parse :: "string \<Rightarrow> json option" where
  "JSON_parse s =
     (case parse_value (Suc (length s)) s of
        None \<Rightarrow> None
      | Some (j, rest) \<Rightarrow> if dropWhile is_json_ws rest = [] then Some j else None)"



section \<open>Paths and documents\<close>

text \<open>
  A path leads from a value into the store, and from a JSON document into its
  parts: one step is a property key or an array index.
\<close>

datatype step = Key string | Index nat

definition child :: "heap \<Rightarrow> jsval \<Rightarrow> step \<Rightarrow> jsval option" where
  "child h v s =
     (case v of
        Ref a \<Rightarrow>
          (case heap_get h a of
             Obj ps \<Rightarrow> (case s of Key k \<Rightarrow> map_of ps k | Index i \<Rightarrow> None)
           | Arr xs \<Rightarrow> (case s of Key k \<Rightarrow> None | Index i \<Rightarrow> if i < length xs then Some (xs ! i) else None))
      | _ \<Rightarrow> None)"

fun follow :: "heap \<Rightarrow> jsval \<Rightarrow> step list \<Rightarrow> jsval option" where
  "follow h v [] = Some v"
| "follow h v (s # p) = (case child h v s of None \<Rightarrow> None | Some x \<Rightarrow> follow h x p)"

definition jchild :: "json \<Rightarrow> step \<Rightarrow> json option" where
  "jchild j s =
     (case j of
        JObj ms \<Rightarrow> (case s of Key k \<Rightarrow> map_of ms k | Index i \<Rightarrow> None)
      | JArr js \<Rightarrow> (case s of Key k \<Rightarrow> None | Index i \<Rightarrow> if i < length js then Some (js ! i) else None)
      | _ \<Rightarrow> None)"

fun jfollow :: "json \<Rightarrow> step list \<Rightarrow> json option" where
  "jfollow j [] = Some j"
| "jfollow j (s # p) = (case jchild j s of None \<Rightarrow> None | Some x \<Rightarrow> jfollow x p)"

text \<open>
  The objects that a path goes through, from the one it starts at to the one it
  ends at.
\<close>

fun visits :: "heap \<Rightarrow> jsval \<Rightarrow> step list \<Rightarrow> addr list" where
  "visits h v [] = (case v of Ref a \<Rightarrow> [a] | _ \<Rightarrow> [])"
| "visits h v (s # p) =
     (case v of
        Ref a \<Rightarrow> a # (case child h v s of None \<Rightarrow> [] | Some x \<Rightarrow> visits h x p)
      | _ \<Rightarrow> [])"

text \<open>
  The order of the serialisation. The properties of an object are serialised in
  enumeration order and the elements of an array by index, so of two steps out
  of one object the one whose property stands first, or whose index is smaller,
  is taken first. Of two paths from one value, the first is serialised before
  the second when the second continues the first, or when at the object where
  they part the step of the first is taken first.
\<close>

definition position :: "(string \<times> jsval) list \<Rightarrow> string \<Rightarrow> nat" where
  "position ps k = length (takeWhile (\<lambda>(k', x). k' \<noteq> k) ps)"

definition step_before :: "heap \<Rightarrow> jsval \<Rightarrow> step \<Rightarrow> step \<Rightarrow> bool" where
  "step_before h v s1 s2 =
     (case v of
        Ref a \<Rightarrow>
          (case heap_get h a of
             Obj ps \<Rightarrow>
               (case s1 of
                  Key k1 \<Rightarrow> (case s2 of Key k2 \<Rightarrow> position ps k1 < position ps k2 | Index i2 \<Rightarrow> False)
                | Index i1 \<Rightarrow> False)
           | Arr xs \<Rightarrow>
               (case s1 of
                  Key k1 \<Rightarrow> False
                | Index i1 \<Rightarrow> (case s2 of Key k2 \<Rightarrow> False | Index i2 \<Rightarrow> i1 < i2)))
      | _ \<Rightarrow> False)"

fun path_before :: "heap \<Rightarrow> jsval \<Rightarrow> step list \<Rightarrow> step list \<Rightarrow> bool" where
  "path_before h v [] p2 = (p2 \<noteq> [])"
| "path_before h v (s1 # p1) [] = False"
| "path_before h v (s1 # p1) (s2 # p2) =
     (if s1 = s2 then (case child h v s1 of None \<Rightarrow> False | Some x \<Rightarrow> path_before h x p1 p2)
      else step_before h v s1 s2)"

text \<open>
  The values an object holds, and a cache that is closed but for the objects
  being serialised: every object of the cache that is not on the stack has all
  the objects it holds in the cache.
\<close>

definition held :: "heap \<Rightarrow> addr \<Rightarrow> jsval list" where
  "held h b = (case heap_get h b of Obj ps \<Rightarrow> map snd ps | Arr xs \<Rightarrow> xs)"

definition closed_cache :: "heap \<Rightarrow> addr list \<Rightarrow> addr list \<Rightarrow> bool" where
  "closed_cache h cache stack =
     list_all (\<lambda>b. b \<in> set stack \<or>
                 list_all (\<lambda>x. case x of Ref d \<Rightarrow> d \<in> set cache | _ \<Rightarrow> True) (held h b)) cache"

text \<open>
  The JSON document that a value denotes when it is a tree of plain JSON data:
  every object is reached once (no sharing, no cycle), an array holds no
  \<open>undefined\<close>, and a property that is \<open>undefined\<close> is left out, as standard
  JSON has it. This definition follows the words of the specification, not the
  code; the result is \<open>None\<close> when the value is not such a tree. The list
  \<open>seen\<close> holds the objects reached so far.
\<close>

function (sequential) spec_document ::
      "nat \<Rightarrow> heap \<Rightarrow> addr list \<Rightarrow> jsval \<Rightarrow> (json option \<times> addr list) option"
  and spec_document_elems ::
      "nat \<Rightarrow> heap \<Rightarrow> addr list \<Rightarrow> jsval list \<Rightarrow> (json list \<times> addr list) option"
  and spec_document_props ::
      "nat \<Rightarrow> heap \<Rightarrow> addr list \<Rightarrow> (string \<times> jsval) list \<Rightarrow> ((string \<times> json) list \<times> addr list) option"
where
  "spec_document 0 h seen v = None"
| "spec_document (Suc n) h seen v =
     (case v of
        Ref a \<Rightarrow>
          if a \<in> set seen then None
          else (case heap_get h a of
                  Arr xs \<Rightarrow>
                    (case spec_document_elems n h (seen @ [a]) xs of
                       None \<Rightarrow> None
                     | Some (js, seen') \<Rightarrow> Some (Some (JArr js), seen'))
                | Obj ps \<Rightarrow>
                    (case spec_document_props n h (seen @ [a]) ps of
                       None \<Rightarrow> None
                     | Some (ms, seen') \<Rightarrow> Some (Some (JObj ms), seen')))
      | _ \<Rightarrow> Some (primitive_json v, seen))"
| "spec_document_elems n h seen [] = Some ([], seen)"
| "spec_document_elems n h seen (x # xs) =
     (case spec_document n h seen x of
        Some (Some j, seen') \<Rightarrow>
          (case spec_document_elems n h seen' xs of
             None \<Rightarrow> None
           | Some (js, seen'') \<Rightarrow> Some (j # js, seen''))
      | _ \<Rightarrow> None)"
| "spec_document_props n h seen [] = Some ([], seen)"
| "spec_document_props n h seen ((k, x) # ps) =
     (case spec_document n h seen x of
        None \<Rightarrow> None
      | Some (r, seen') \<Rightarrow>
          (case spec_document_props n h seen' ps of
             None \<Rightarrow> None
           | Some (ms, seen'') \<Rightarrow> Some (member k r @ ms, seen'')))"
  by pat_completeness auto
termination
  by (relation "inv_image (less_than <*lex*> less_than <*lex*> less_than)
       (\<lambda>x. case x of
           Inl (n, h, s, v) \<Rightarrow> (n, 0::nat, 0::nat)
         | Inr (Inl (n, h, s, xs)) \<Rightarrow> (n, 1, length xs)
         | Inr (Inr (n, h, s, ps)) \<Rightarrow> (n, 1, length ps))") auto

section \<open>Rendering (log.ts)\<close>

text \<open>
  The function that \<open>messages\<close> maps over the formats: the literal \<open>json\<close>, a
  format function, or a template.
\<close>

definition render :: "world \<Rightarrow> heap \<Rightarrow> Log \<Rightarrow> format \<Rightarrow> (error + jsval) \<times> world" where
  "render w h l f =
     (case f of
        Template s \<Rightarrow>
          if s = ''json''
          then (case stringify_message h (toMessage l) of
                  Inl e \<Rightarrow> (Inl e, w)
                | Inr out \<Rightarrow> (Inr (Str out), w))
          else render_template w h l s
      | FormatFn source fn \<Rightarrow> (fn (pipes l) h (toMessage l), w))"

text \<open>
  \<open>this.formats.map(...)\<close>: the formats are rendered in order, and an exception
  thrown while one is rendered leaves \<open>map\<close> and \<open>messages\<close>.
\<close>

fun render_all :: "world \<Rightarrow> heap \<Rightarrow> Log \<Rightarrow> format list \<Rightarrow> (error + jsval list) \<times> world" where
  "render_all w h l [] = (Inr [], w)"
| "render_all w h l (f # fs) =
     (case render w h l f of
        (Inl e, w') \<Rightarrow> (Inl e, w')
      | (Inr out, w') \<Rightarrow>
          (case render_all w' h l fs of
             (Inl e, w'') \<Rightarrow> (Inl e, w'')
           | (Inr outs, w'') \<Rightarrow> (Inr (out # outs), w'')))"

definition messages :: "world \<Rightarrow> heap \<Rightarrow> Log \<Rightarrow> (error + jsval list) \<times> world" where
  "messages w h l = render_all w h l (formats l)"

section \<open>Example stacks\<close>

text \<open>
  A frame with the given file, method name and line, and the stack of a call
  \<open>Logger.info(...)\<close> made by a function \<open>run\<close>: innermost frame first, as the
  platform captures it.
\<close>

definition frame :: "string \<Rightarrow> string option \<Rightarrow> number \<Rightarrow> CallSite" where
  "frame file method ln =
     \<lparr>getFileName = Some file, getMethodName = method, getFunctionName = method,
      getTypeName = None, getLineNumber = Some ln, getColumnNumber = Some 1\<rparr>"

definition logged_stack :: "CallSite list" where
  "logged_stack =
     [frame ''caller.js'' (Some ''_getCallSites'') 71, frame ''caller.js'' (Some ''create'') 39,
      frame ''log.js'' None 41, frame ''index.js'' (Some ''_handle'') 24,
      frame ''index.js'' (Some ''info'') 121, frame ''app.js'' (Some ''run'') 7]"

text \<open>The stack of a call of \<open>Caller.create\<close> that no logger method dispatched.\<close>

definition direct_stack :: "CallSite list" where
  "direct_stack =
     [frame ''caller.js'' (Some ''_getCallSites'') 71, frame ''caller.js'' (Some ''create'') 39,
      frame ''app.js'' (Some ''run'') 7, frame ''app.js'' (Some ''main'') 20]"

text \<open>A platform whose hook is the one the module saw when it was loaded.\<close>

definition example_world :: "CallSite list \<Rightarrow> world" where
  "example_world st =
     \<lparr>prepareStackTrace = NATIVE_PREPARE_STACK_TRACE, raw_stack = st, wrapCallSite = Inr,
      captures = 0, now = 1700000000000, columns = Some 80, lineLength = Some 0,
      separator = ''<-|->'', resolveSeparators = (\<lambda>s sep width. s),
      functionText = (\<lambda>member. ''function '' @ member @ ''() { [native code] }'')\<rparr>"

section \<open>Example records\<close>

text \<open>
  A pipe that puts a string in upper case and throws on anything else, and a
  record with that pipe, a second entry \<open>limit\<close> that is not a function, and the
  given formats. Its \<open>meta\<close> is object 0 and its \<open>args\<close> array 1 of the store.
\<close>

definition upper :: "heap \<Rightarrow> propval \<Rightarrow> error + jsval" where
  "upper h p =
     (case p of
        PVal (Str s) \<Rightarrow>
          Inr (Str (map (\<lambda>c. if c \<in> set ''abcdefghijklmnopqrstuvwxyz''
                             then char_of (of_char c - (32::nat)) else c) s))
      | _ \<Rightarrow> Inl (ThrownByUser ''upper: not a string''))"

definition example_pipes :: Pipes where
  "example_pipes = [''upper'' \<mapsto> PipeFn upper, ''limit'' \<mapsto> NotAFunction (Num 3)]"

definition example_log :: "format list \<Rightarrow> Log" where
  "example_log fs =
     \<lparr>args = Ref 1, caller = Some (caller_of (frame ''app.js'' (Some ''run'') 7) (Some [])),
      date = 1700, level = Info, meta = Ref 0, name = Some ''db'', formats = fs,
      pipes = example_pipes, callerLevel = 0\<rparr>"

text \<open>
  Four stores. In the first, \<open>meta\<close> is \<open>{user: "ann"}\<close> and \<open>args\<close> is
  \<open>["started", 3]\<close>. In the second, \<open>meta\<close> holds one object under two keys:
  \<open>{a: o, b: o}\<close> with \<open>o = {k: 1}\<close>, and nothing is cyclic. In the third,
  \<open>meta\<close> refers to itself: \<open>{id: 7, self: meta}\<close>. In the fourth, \<open>args\<close>
  and \<open>meta\<close> hold one object: \<open>args = [o]\<close> and \<open>meta = {o: o}\<close> with
  \<open>o = {k: 1}\<close>.
\<close>

definition plain_store :: heap where
  "plain_store = [Obj [(''user'', Str ''ann'')], Arr [Str ''started'', Num 3]]"

definition shared_store :: heap where
  "shared_store = [Obj [(''a'', Ref 2), (''b'', Ref 2)], Arr [], Obj [(''k'', Num 1)]]"

definition cyclic_store :: heap where
  "cyclic_store = [Obj [(''id'', Num 7), (''self'', Ref 0)], Arr []]"

definition crossed_store :: heap where
  "crossed_store = [Obj [(''o'', Ref 2)], Arr [Ref 2], Obj [(''k'', Num 1)]]"

text \<open>
  The JSON of the \<open>Caller\<close> of the example record, and the documents the example
  record renders to over the second, the third and the fourth store.
\<close>

definition example_caller_json :: json where
  "example_caller_json =
     JObj [(''fileName'', JStr ''app.js''), (''methodName'', JStr ''run''),
           (''functionName'', JStr ''run''), (''line'', JNum 7), (''column'', JNum 1),
           (''trace'', JArr [])]"

definition shared_rendering :: json where
  "shared_rendering =
     JObj [(''args'', JArr []), (''caller'', example_caller_json), (''date'', JNum 1700),
           (''level'', JStr ''info''),
           (''meta'', JObj [(''a'', JObj [(''k'', JNum 1)]), (''b'', JStr ''[circular]'')]),
           (''name'', JStr ''db'')]"

definition cyclic_rendering :: json where
  "cyclic_rendering =
     JObj [(''args'', JArr []), (''caller'', example_caller_json), (''date'', JNum 1700),
           (''level'', JStr ''info''),
           (''meta'', JObj [(''id'', JNum 7), (''self'', JStr ''[circular]'')]),
           (''name'', JStr ''db'')]"

definition crossed_rendering :: json where
  "crossed_rendering =
     JObj [(''args'', JArr [JObj [(''k'', JNum 1)]]), (''caller'', example_caller_json),
           (''date'', JNum 1700), (''level'', JStr ''info''),
           (''meta'', JObj [(''o'', JStr ''[circular]'')]),
           (''name'', JStr ''db'')]"

section \<open>Call-site resolution: properties\<close>

lemma slice_nonneg:
  "0 \<le> s \<Longrightarrow> 0 \<le> n \<Longrightarrow> slice xs s (s + n) = take (nat n) (drop (nat s) xs)"
  by (auto simp: slice_def Let_def min_def)

lemma new_Caller_found:
  assumes "new_Caller (at_index cs (j + 1)) (Some (slice cs (j + 2) (j + 2 + mx))) = Inr c"
    and "0 \<le> j" and "0 \<le> mx"
  shows "\<exists>k<length cs. c = caller_of (cs ! k)
           (Some (map (\<lambda>p. caller_of p None) (take (nat mx) (drop (Suc k) cs))))"
proof -
  from assms(1) have in_range: "j + 1 < int (length cs)"
    by (auto simp: new_Caller_def at_index_def split: if_splits)
  have k: "nat (j + 1) < length cs" using in_range assms(2) by linarith
  have sl: "slice cs (j + 2) (j + 2 + mx) = take (nat mx) (drop (Suc (nat (j + 1))) cs)"
  proof -
    have "0 \<le> j + 2" using assms(2) by simp
    from slice_nonneg [OF this assms(3)]
    have "slice cs (j + 2) (j + 2 + mx) = take (nat mx) (drop (nat (j + 2)) cs)" .
    moreover have "nat (j + 2) = Suc (nat (j + 1))" using assms(2) by linarith
    ultimately show ?thesis by simp
  qed
  from assms(1) in_range assms(2)
  have "c = caller_of (cs ! nat (j + 1))
           (Some (map (\<lambda>p. caller_of p None) (take (nat mx) (drop (Suc (nat (j + 1))) cs))))"
    by (simp add: new_Caller_def at_index_def sl)
  with k show ?thesis by blast
qed

lemma new_Caller_no_parents: "new_Caller cso None = Inr c \<Longrightarrow> trace c = None"
  by (auto simp: new_Caller_def caller_of_def split: option.splits)

lemma create_loop_trace:
  "create_loop cs lv mx i found cso = Inr c \<Longrightarrow> 0 \<le> lv \<Longrightarrow> 0 \<le> mx \<Longrightarrow>
     trace c = None \<or>
     (\<exists>k<length cs. c = caller_of (cs ! k)
         (Some (map (\<lambda>p. caller_of p None) (take (nat mx) (drop (Suc k) cs)))))"
proof (induction cs lv mx i found cso rule: create_loop.induct)
  case (1 callSites level maxCallersCount i foundHandle callSite)
  let ?m = "getMethodName (callSites ! i)"
  show ?case
  proof (cases "i < length callSites")
    case False
    with "1.prems"(1) have "new_Caller callSite None = Inr c"
      by (subst (asm) create_loop.simps) simp
    then show ?thesis by (simp add: new_Caller_no_parents)
  next
    case inside: True
    show ?thesis
    proof (cases "\<not> foundHandle \<and> ?m = Some HANDLE_METHOD_NAME")
      case True
      with inside "1.prems"(1)
      have "create_loop callSites level maxCallersCount (i + 1) True (Some (callSites ! i)) = Inr c"
        by (subst (asm) create_loop.simps) (simp add: Let_def)
      from "1.IH"(1) [OF inside refl refl True this "1.prems"(2,3)] show ?thesis .
    next
      case not_handle: False
      show ?thesis
      proof (cases "foundHandle \<and> (case ?m of None \<Rightarrow> False | Some m \<Rightarrow> m \<in> set LOG_LEVELS)")
        case True
        with inside not_handle "1.prems"(1)
        have "new_Caller (at_index callSites (int i + level + 1))
                (Some (slice callSites (int i + level + 2) (int i + level + 2 + maxCallersCount))) = Inr c"
          by (subst (asm) create_loop.simps) (simp add: Let_def)
        from new_Caller_found [OF this _ "1.prems"(3)] "1.prems"(2) show ?thesis by simp
      next
        case False
        with inside not_handle "1.prems"(1)
        have "create_loop callSites level maxCallersCount (i + 1) foundHandle (Some (callSites ! i)) = Inr c"
          by (subst (asm) create_loop.simps) (auto simp: Let_def split: if_splits)
        from "1.IH"(2) [OF inside refl refl not_handle False this "1.prems"(2,3)] show ?thesis .
      qed
    qed
  qed
qed

lemmas create_eval =
  create_on_def create_loop.simps at_index_def slice_def new_Caller_def Let_def
  HANDLE_METHOD_NAME_def LOG_LEVELS_def logged_stack_def direct_stack_def frame_def

text \<open>
  C1. The claim: when \<open>skipLevels\<close> walks past the end of the captured frames,
  \<open>Caller.create\<close> returns a call site with every field absent, and does not
  fail. The code reads \<open>callSites[j + 1]\<close> unchecked and hands the \<open>undefined\<close>
  to the constructor, whose first getter call throws: on the stack of a
  \<open>Logger.info\<close> call made by an outermost function, with \<open>skipLevels = 1\<close>, the
  result is a \<open>TypeError\<close>, not a call site.
\<close>

theorem create_past_end_throws:
  "create_on logged_stack 1 1 =
     Inl (TypeError ''Cannot read properties of undefined (reading 'getFileName')'')"
  by (simp add: create_eval)

text \<open>
  C2. The claim: when the sentinel \<open>_handle\<close> or the level-name boundary is never
  found, \<open>Caller.create\<close> returns the first raw frame. The loop overwrites
  \<open>callSite\<close> with every frame it visits, so the fallback after the loop is the
  last frame of the list: on a stack of four frames without \<open>_handle\<close> the result
  is built from the outermost frame \<open>main\<close>, which differs from the one built
  from the first frame \<open>_getCallSites\<close>.
\<close>

theorem create_fallback_is_last_frame:
  "create_on direct_stack 0 1 = Inr (caller_of (frame ''app.js'' (Some ''main'') 20) None)
   \<and> at_index direct_stack 0 = Some (frame ''caller.js'' (Some ''_getCallSites'') 71)
   \<and> caller_of (frame ''app.js'' (Some ''main'') 20) None
       \<noteq> caller_of (frame ''caller.js'' (Some ''_getCallSites'') 71) None"
  by (simp add: create_eval caller_of_def str_or_undefined_def num_or_undefined_def)

text \<open>
  C8, as stated, fails: with \<open>maxAncestors = 2\<close> and a single frame above the
  resolved one (fewer ancestors than requested), the trace has length 1, not 0.
\<close>

theorem trace_fewer_ancestors_counterexample:
  "create_on (logged_stack @ [frame ''app.js'' (Some ''main'') 20]) 0 2 =
     Inr (caller_of (frame ''app.js'' (Some ''run'') 7)
            (Some [caller_of (frame ''app.js'' (Some ''main'') 20) None]))"
  by (simp add: create_eval)

text \<open>
  C8, amended. For every frame list and all non-negative \<open>skipLevels\<close> and
  \<open>maxAncestors\<close>, whenever \<open>Caller.create\<close> returns a call site with a trace,
  the trace has at most \<open>maxAncestors\<close> entries, none of its entries has a trace
  of its own, and its length is the smaller of \<open>maxAncestors\<close> and the number of
  frames that follow the resolved frame (so it is 0 only when \<open>maxAncestors\<close> is 0
  or no frame follows). On the fallback path the trace is absent.
\<close>

theorem trace_bounded:
  assumes "create_on callSites skipLevels maxAncestors = Inr c"
    and "0 \<le> skipLevels" and "0 \<le> maxAncestors"
  shows "\<forall>t. trace c = Some t \<longrightarrow>
           length t \<le> nat maxAncestors \<and> (\<forall>a\<in>set t. trace a = None) \<and>
           (\<exists>k<length callSites.
              c = caller_of (callSites ! k) (Some t) \<and>
              length t = min (nat maxAncestors) (length callSites - Suc k))"
proof (intro allI impI)
  fix t assume t: "trace c = Some t"
  from assms have "trace c = None \<or>
     (\<exists>k<length callSites. c = caller_of (callSites ! k)
         (Some (map (\<lambda>p. caller_of p None) (take (nat maxAncestors) (drop (Suc k) callSites)))))"
    unfolding create_on_def by (rule create_loop_trace)
  with t obtain k where k: "k < length callSites"
    and c: "c = caller_of (callSites ! k)
         (Some (map (\<lambda>p. caller_of p None) (take (nat maxAncestors) (drop (Suc k) callSites))))"
    by auto
  from c t have t_eq: "t = map (\<lambda>p. caller_of p None) (take (nat maxAncestors) (drop (Suc k) callSites))"
    by (simp add: caller_of_def)
  have "length t \<le> nat maxAncestors" by (simp add: t_eq)
  moreover have "\<forall>a\<in>set t. trace a = None" by (auto simp: t_eq caller_of_def)
  moreover have "c = caller_of (callSites ! k) (Some t)" using c t_eq by simp
  moreover have "length t = min (nat maxAncestors) (length callSites - Suc k)"
    by (simp add: t_eq min.commute)
  ultimately show "length t \<le> nat maxAncestors \<and> (\<forall>a\<in>set t. trace a = None) \<and>
           (\<exists>k<length callSites.
              c = caller_of (callSites ! k) (Some t) \<and>
              length t = min (nat maxAncestors) (length callSites - Suc k))"
    using k by blast
qed

theorem trace_bounded_witness:
  "create_on (logged_stack @ [frame ''app.js'' (Some ''main'') 20, frame ''app.js'' None 30]) 0 1 =
     Inr (caller_of (frame ''app.js'' (Some ''run'') 7)
            (Some [caller_of (frame ''app.js'' (Some ''main'') 20) None]))
   \<and> (0::int) \<le> 0 \<and> (0::int) \<le> 1
   \<and> length [caller_of (frame ''app.js'' (Some ''main'') 20) None] \<le> nat 1
   \<and> trace (caller_of (frame ''app.js'' (Some ''main'') 20) None) = None"
proof -
  let ?S = "logged_stack @ [frame ''app.js'' (Some ''main'') 20, frame ''app.js'' None 30]"
  let ?t = "[caller_of (frame ''app.js'' (Some ''main'') 20) None]"
  let ?c = "caller_of (frame ''app.js'' (Some ''run'') 7) (Some ?t)"
  have h: "create_on ?S 0 1 = Inr ?c" by (simp add: create_eval)
  have t: "trace ?c = Some ?t" by (simp add: caller_of_def)
  from trace_bounded [OF h] t
  have "length ?t \<le> nat 1 \<and> (\<forall>a\<in>set ?t. trace a = None)" by simp
  with h show ?thesis by simp
qed

section \<open>Stack capture and record construction: properties\<close>

lemma captures_getCallSites: "captures (snd (getCallSites w)) = captures w + 1"
  by (simp add: getCallSites_def Let_def)

lemma captures_create: "captures (snd (create w lv mx)) = captures w + 1"
  using captures_getCallSites [of w]
  by (auto simp: create_def split: prod.splits sum.splits)

text \<open>
  C3, as stated, fails: constructing a record captures the stack. On a platform
  that has captured no stack yet, one capture has happened when the constructor
  returns, before any read of the record.
\<close>

theorem construction_captures_counterexample:
  "captures (example_world logged_stack) = 0 \<and>
   captures (snd (new_Log (example_world logged_stack) None [] (\<lambda>p. None) (Ref 0) Info (Ref 1) 0)) = 1"
  by (simp add: new_Log_def create_def getCallSites_def example_world_def Let_def
      split: prod.splits sum.splits)

text \<open>
  C3, amended. Constructing a record performs stack capture and call-site
  resolution exactly once, eagerly, inside the constructor (also when the
  constructor throws); the resolved caller is stored in the field \<open>caller\<close>, and
  reading the field or projecting the record with \<open>toMessage\<close> returns the stored
  value: a read takes no platform state and cannot capture again.
\<close>

theorem construction_captures_once:
  "captures (snd (new_Log w n fs ps m lv a cl)) = captures w + 1 \<and>
   (\<forall>l. fst (new_Log w n fs ps m lv a cl) = Inr l \<longrightarrow>
      (\<exists>c. fst (create w (sint cl) MAX_CALLERS_COUNT) = Inr c \<and> caller l = Some c \<and>
           caller (toMessage l) = Some c))"
  using captures_create [of w "sint cl" MAX_CALLERS_COUNT]
  by (auto simp: new_Log_def toMessage_def Let_def split: prod.splits sum.splits)

theorem construction_captures_once_witness:
  "fst (new_Log (example_world logged_stack) None [] (\<lambda>p. None) (Ref 0) Info (Ref 1) 0) =
     Inr \<lparr>args = Ref 1, caller = Some (caller_of (frame ''app.js'' (Some ''run'') 7) (Some [])),
          date = 1700000000000, level = Info, meta = Ref 0, name = None, formats = [],
          pipes = (\<lambda>p. None), callerLevel = 0\<rparr>
   \<and> captures (snd (new_Log (example_world logged_stack) None [] (\<lambda>p. None) (Ref 0) Info (Ref 1) 0)) = 1
   \<and> fst (create (example_world logged_stack) 0 MAX_CALLERS_COUNT) =
       Inr (caller_of (frame ''app.js'' (Some ''run'') 7) (Some []))"
proof -
  let ?l = "\<lparr>args = Ref 1, caller = Some (caller_of (frame ''app.js'' (Some ''run'') 7) (Some [])),
          date = 1700000000000, level = Info, meta = Ref 0, name = None, formats = [],
          pipes = (\<lambda>p. None), callerLevel = 0\<rparr>"
  have st: "map_throwing Inr logged_stack = Inr logged_stack"
    by (simp add: logged_stack_def)
  have cr: "create_on logged_stack 0 1 = Inr (caller_of (frame ''app.js'' (Some ''run'') 7) (Some []))"
    by (simp add: create_eval)
  have h: "fst (new_Log (example_world logged_stack) None [] (\<lambda>p. None) (Ref 0) Info (Ref 1) 0) = Inr ?l"
    by (simp add: new_Log_def create_def getCallSites_def example_world_def Let_def st cr
        MAX_CALLERS_COUNT_def)
  from construction_captures_once
    [of "example_world logged_stack" None "[]" "\<lambda>p. None" "Ref 0" Info "Ref 1" 0] h
  show ?thesis by (auto simp: example_world_def)
qed

text \<open>
  C9, as stated, fails: the hook is not restored to the value it had before the
  capture. When other code has installed a hook of its own since the module was
  loaded, the capture leaves the module-load value in its place.
\<close>

theorem hook_not_restored_counterexample:
  "prepareStackTrace ((example_world logged_stack)\<lparr>prepareStackTrace := OtherHook 0\<rparr>) = OtherHook 0 \<and>
   prepareStackTrace
     (snd (getCallSites ((example_world logged_stack)\<lparr>prepareStackTrace := OtherHook 0\<rparr>))) =
     NATIVE_PREPARE_STACK_TRACE"
  by (simp add: getCallSites_def Let_def)

text \<open>
  C9, amended. After every invocation of the stack-frame capture, whether it
  returns the frames or throws while wrapping them, \<open>Error.prepareStackTrace\<close>
  holds the value the module read when it was loaded
  (\<open>NATIVE_PREPARE_STACK_TRACE\<close>); the override does not outlive the call. That
  is the value the hook had before the capture exactly when no other code had
  replaced the hook in between.
\<close>

theorem hook_reset_to_module_load_value:
  "prepareStackTrace (snd (getCallSites w)) = NATIVE_PREPARE_STACK_TRACE \<and>
   (prepareStackTrace (snd (getCallSites w)) = prepareStackTrace w) =
     (prepareStackTrace w = NATIVE_PREPARE_STACK_TRACE)"
  by (auto simp: getCallSites_def Let_def)

section \<open>The placeholder pattern: properties\<close>

lemma not_space_brace [simp]: "\<not> is_space (CHR ''{'')" "\<not> is_space (CHR ''|'')" "\<not> is_space (CHR ''}'')"
  by (simp_all add: is_space_def)

lemma not_ident_brace [simp]:
  "\<not> ident_part (CHR ''{'')" "\<not> ident_part (CHR ''|'')" "\<not> ident_part (CHR ''}'')"
  "\<not> ident_start (CHR ''{'')"
  by (simp_all add: ident_part_def ident_start_def)






















section \<open>Templates and rendering: properties\<close>









lemma render_all_fails:
  "render_all w h l pre = (Inr outs, w') \<Longrightarrow> fst (render w' h l f) = Inl e \<Longrightarrow>
     fst (render_all w h l (pre @ f # post)) = Inl e"
proof (induction pre arbitrary: w outs)
  case Nil
  then show ?case by (cases "render w' h l f") (auto split: prod.splits sum.splits)
next
  case (Cons g pre)
  from Cons.prems(1) obtain out outs' w1 where g: "render w h l g = (Inr out, w1)"
    and rest: "render_all w1 h l pre = (Inr outs', w')"
    by (auto split: prod.splits sum.splits)
  from Cons.IH [OF rest Cons.prems(2)] have "fst (render_all w1 h l (pre @ f # post)) = Inl e" .
  with g show ?case by (auto split: prod.splits sum.splits)
qed

lemmas template_eval =
  tokenize_def match_at_def match_tail_def match_group_def match_close_def take_ident_def is_space_def ident_start_def ident_part_def
  replace_placeholder_def this_prop_def prop_text_def int_text_def nat_text.simps
  call_inherited_def Object_prototype_functions_def is_object_def undefined_receiver_def
  pipes_text_def try_method_def
  digit_char_def render_def render_template_def messages_def Let_def
  example_log_def example_pipes_def example_world_def pipe_error_def




text \<open>
  C5, as stated, fails: a failing specifier aborts the whole render pass. With
  the formats \<open>{{level}}\<close>, \<open>{{level|limit}}\<close> and \<open>{{date}}\<close>, where \<open>limit\<close>
  is not a function, \<open>messages\<close> throws the missing-pipe error and returns no
  output at all, although the first and the third specifier render on their own.
\<close>

theorem failing_specifier_counterexample:
  "fst (messages (example_world []) plain_store
         (example_log [Template ''{{level}}'', Template ''{{level|limit}}'', Template ''{{date}}''])) =
     Inl (pipe_error ''limit'')
   \<and> fst (messages (example_world []) plain_store
         (example_log [Template ''{{level}}'', Template ''{{date}}''])) =
     Inr [Str ''info'', Str ''1700'']"
  by (simp add: template_eval)

text \<open>
  C5, amended. For every record whose formats list contains a specifier that
  fails (with a missing-pipe error or any other), while the specifiers before it
  render, the failure is not scoped to that specifier: \<open>messages\<close> as a whole
  fails with that error and returns no output for any specifier, and the
  specifiers behind the failing one are not rendered.
\<close>

theorem failing_specifier_aborts_messages:
  assumes "formats l = pre @ f # post"
    and "render_all w h l pre = (Inr outs, w')"
    and "fst (render w' h l f) = Inl e"
  shows "fst (messages w h l) = Inl e"
  using render_all_fails [OF assms(2,3)] by (simp add: messages_def assms(1))

theorem failing_specifier_aborts_messages_witness:
  "formats (example_log [Template ''{{level}}'', Template ''{{level|limit}}'', Template ''{{date}}'']) =
     [Template ''{{level}}''] @ Template ''{{level|limit}}'' # [Template ''{{date}}'']
   \<and> render_all (example_world []) plain_store
         (example_log [Template ''{{level}}'', Template ''{{level|limit}}'', Template ''{{date}}''])
         [Template ''{{level}}''] = (Inr [Str ''info''], (example_world [])\<lparr>lineLength := Some 80\<rparr>)
   \<and> fst (render ((example_world [])\<lparr>lineLength := Some 80\<rparr>) plain_store
         (example_log [Template ''{{level}}'', Template ''{{level|limit}}'', Template ''{{date}}''])
         (Template ''{{level|limit}}'')) = Inl (pipe_error ''limit'')
   \<and> fst (messages (example_world []) plain_store
         (example_log [Template ''{{level}}'', Template ''{{level|limit}}'', Template ''{{date}}''])) =
       Inl (pipe_error ''limit'')"
proof -
  let ?l = "example_log [Template ''{{level}}'', Template ''{{level|limit}}'', Template ''{{date}}'']"
  let ?w' = "(example_world [])\<lparr>lineLength := Some 80\<rparr>"
  have a: "formats ?l = [Template ''{{level}}''] @ Template ''{{level|limit}}'' # [Template ''{{date}}'']"
    by (simp add: example_log_def)
  have b: "render_all (example_world []) plain_store ?l [Template ''{{level}}''] = (Inr [Str ''info''], ?w')"
    by (simp add: template_eval)
  have c: "fst (render ?w' plain_store ?l (Template ''{{level|limit}}'')) = Inl (pipe_error ''limit'')"
    by (simp add: template_eval)
  from failing_specifier_aborts_messages [OF a b c] a b c show ?thesis by simp
qed

section \<open>JSON serialisation: properties\<close>

lemma and_then_simps [simp]:
  "and_then None k = None"
  "and_then (Some (Inl e)) k = Some (Inl e)"
  "and_then (Some (Inr (x, c))) k = k x c"
  by (simp_all add: and_then_def)

lemma and_then_eq_Inr:
  "and_then r k = Some (Inr z) \<longleftrightarrow> (\<exists>x c. r = Some (Inr (x, c)) \<and> k x c = Some (Inr z))"
  by (auto simp: and_then_def split: option.splits sum.splits)

lemma uncached_mono: "set c \<subseteq> set c' \<Longrightarrow> uncached h c' \<le> uncached h c"
  unfolding uncached_def by (intro card_mono) auto

lemma uncached_push:
  "a < length h \<Longrightarrow> a \<notin> set c \<Longrightarrow> uncached h (c @ [a]) < uncached h c"
  unfolding uncached_def by (intro psubset_card_mono) auto

lemma replacer_cases:
  "replacer cache v = (v', cache') \<Longrightarrow>
     (\<exists>a. v = Ref a \<and> a \<in> set cache \<and> v' = Str circular_marker \<and> cache' = cache) \<or>
     (\<exists>a. v = Ref a \<and> a \<notin> set cache \<and> v' = Ref a \<and> cache' = cache @ [a]) \<or>
     ((\<forall>a. v \<noteq> Ref a) \<and> v' = v \<and> cache' = cache)"
  by (cases v) (auto simp: replacer_def split: if_splits)

lemma ser_total:
  "(set stack \<subseteq> set cache \<longrightarrow> uncached h cache < n \<longrightarrow>
      (\<exists>r c'. ser_value n h stack cache v = Some (Inr (r, c')) \<and> set cache \<subseteq> set c'))"
  "(set stack \<subseteq> set cache \<longrightarrow> uncached h cache < n \<longrightarrow>
      (\<exists>js c'. ser_elems n h stack cache xs = Some (Inr (js, c')) \<and> set cache \<subseteq> set c'))"
  "(set stack \<subseteq> set cache \<longrightarrow> uncached h cache < n \<longrightarrow>
      (\<exists>ms c'. ser_props n h stack cache ps = Some (Inr (ms, c')) \<and> set cache \<subseteq> set c'))"
proof (induction n h stack cache v and n h stack cache xs and n h stack cache ps
    rule: ser_value_ser_elems_ser_props.induct)
  case (1 h stack cache v)
  show ?case by simp
next
  case (2 n h stack cache v)
  show ?case
  proof (intro impI)
    assume st: "set stack \<subseteq> set cache" and fuel: "uncached h cache < Suc n"
    obtain v' cache' where rp: "replacer cache v = (v', cache')" by (cases "replacer cache v")
    from replacer_cases [OF rp]
    consider (marked) a where "v = Ref a" "a \<in> set cache" "v' = Str circular_marker" "cache' = cache"
      | (fresh) a where "v = Ref a" "a \<notin> set cache" "v' = Ref a" "cache' = cache @ [a]"
      | (prim) "\<forall>a. v \<noteq> Ref a" "v' = v" "cache' = cache"
      by blast
    then show "\<exists>r c'. ser_value (Suc n) h stack cache v = Some (Inr (r, c')) \<and> set cache \<subseteq> set c'"
    proof cases
      case marked
      with rp show ?thesis by simp
    next
      case prim
      with rp show ?thesis by (cases v) simp_all
    next
      case fresh
      from fresh st have nst: "a \<notin> set stack" by auto
      have st': "set (a # stack) \<subseteq> set cache'" using st fresh by auto
      show ?thesis
      proof (cases "heap_get h a")
        case (Arr xs)
        then have inh: "a < length h" by (auto simp: heap_get_def split: if_splits)
        from uncached_push [OF inh fresh(2)] fuel fresh(4) have "uncached h cache' < n" by simp
        with "2.IH"(2) [OF rp [symmetric] fresh(3) nst Arr] st'
        obtain js c' where "ser_elems n h (a # stack) cache' xs = Some (Inr (js, c'))"
          and "set cache' \<subseteq> set c'" by blast
        with rp fresh nst Arr show ?thesis by auto
      next
        case (Obj ps)
        show ?thesis
        proof (cases "a < length h")
          case True
          from uncached_push [OF True fresh(2)] fuel fresh(4) have "uncached h cache' < n" by simp
          with "2.IH"(1) [OF rp [symmetric] fresh(3) nst Obj] st'
          obtain ms c' where "ser_props n h (a # stack) cache' ps = Some (Inr (ms, c'))"
            and "set cache' \<subseteq> set c'" by blast
          with rp fresh nst Obj show ?thesis by auto
        next
          case False
          with Obj have "ps = []" by (simp add: heap_get_def)
          with rp fresh nst Obj show ?thesis by auto
        qed
      qed
    qed
  qed
next
  case (3 n h stack cache)
  show ?case by simp
next
  case (4 n h stack cache x xs)
  show ?case
  proof (intro impI)
    assume st: "set stack \<subseteq> set cache" and fuel: "uncached h cache < n"
    from "4.IH"(1) st fuel obtain r c1 where
      x: "ser_value n h stack cache x = Some (Inr (r, c1))" and c1: "set cache \<subseteq> set c1" by blast
    from uncached_mono [OF c1, of h] fuel have "uncached h c1 < n" by simp
    moreover have "set stack \<subseteq> set c1 \<longrightarrow> uncached h c1 < n \<longrightarrow>
      (\<exists>js c'. ser_elems n h stack c1 xs = Some (Inr (js, c')) \<and> set c1 \<subseteq> set c')"
      by (rule "4.IH"(2))
    ultimately obtain js c2 where
      "ser_elems n h stack c1 xs = Some (Inr (js, c2))" and "set c1 \<subseteq> set c2"
      using st c1 by blast
    with x c1 show "\<exists>js c'. ser_elems n h stack cache (x # xs) = Some (Inr (js, c')) \<and> set cache \<subseteq> set c'"
      by auto
  qed
next
  case (5 n h stack cache)
  show ?case by simp
next
  case (6 n h stack cache k x ps)
  show ?case
  proof (intro impI)
    assume st: "set stack \<subseteq> set cache" and fuel: "uncached h cache < n"
    from "6.IH"(1) st fuel obtain r c1 where
      x: "ser_value n h stack cache x = Some (Inr (r, c1))" and c1: "set cache \<subseteq> set c1" by blast
    from uncached_mono [OF c1, of h] fuel have "uncached h c1 < n" by simp
    moreover have "set stack \<subseteq> set c1 \<longrightarrow> uncached h c1 < n \<longrightarrow>
      (\<exists>ms c'. ser_props n h stack c1 ps = Some (Inr (ms, c')) \<and> set c1 \<subseteq> set c')"
      by (rule "6.IH"(2))
    ultimately obtain ms c2 where
      "ser_props n h stack c1 ps = Some (Inr (ms, c2))" and "set c1 \<subseteq> set c2"
      using st c1 by blast
    with x c1 show "\<exists>ms c'. ser_props n h stack cache ((k, x) # ps) = Some (Inr (ms, c')) \<and> set cache \<subseteq> set c'"
      by auto
  qed
qed

lemma ser_cache_mono:
  "(\<forall>r c'. ser_value n h stack cache v = Some (Inr (r, c')) \<longrightarrow> set cache \<subseteq> set c')"
  "(\<forall>js c'. ser_elems n h stack cache xs = Some (Inr (js, c')) \<longrightarrow> set cache \<subseteq> set c')"
  "(\<forall>ms c'. ser_props n h stack cache ps = Some (Inr (ms, c')) \<longrightarrow> set cache \<subseteq> set c')"
proof (induction n h stack cache v and n h stack cache xs and n h stack cache ps
    rule: ser_value_ser_elems_ser_props.induct)
  case (1 h stack cache v)
  show ?case by simp
next
  case (2 n h stack cache v)
  show ?case
  proof (intro allI impI)
    fix r c' assume res: "ser_value (Suc n) h stack cache v = Some (Inr (r, c'))"
    obtain v' cache' where rp: "replacer cache v = (v', cache')" by (cases "replacer cache v")
    from replacer_cases [OF rp]
    consider (marked) a where "v = Ref a" "a \<in> set cache" "v' = Str circular_marker" "cache' = cache"
      | (fresh) a where "v = Ref a" "a \<notin> set cache" "v' = Ref a" "cache' = cache @ [a]"
      | (prim) "\<forall>a. v \<noteq> Ref a" "v' = v" "cache' = cache"
      by blast
    then show "set cache \<subseteq> set c'"
    proof cases
      case marked
      with rp res show ?thesis by simp
    next
      case prim
      with rp res show ?thesis by (cases v) simp_all
    next
      case fresh
      from res rp fresh have nst: "a \<notin> set stack" by (auto split: if_splits)
      show ?thesis
      proof (cases "heap_get h a")
        case (Arr xs)
        with res rp fresh nst obtain js where "ser_elems n h (a # stack) cache' xs = Some (Inr (js, c'))"
          by (auto simp: and_then_eq_Inr)
        with "2.IH"(2) [OF rp [symmetric] fresh(3) nst Arr] have "set cache' \<subseteq> set c'" by blast
        with fresh show ?thesis by auto
      next
        case (Obj ps)
        with res rp fresh nst obtain ms where "ser_props n h (a # stack) cache' ps = Some (Inr (ms, c'))"
          by (auto simp: and_then_eq_Inr)
        with "2.IH"(1) [OF rp [symmetric] fresh(3) nst Obj] have "set cache' \<subseteq> set c'" by blast
        with fresh show ?thesis by auto
      qed
    qed
  qed
next
  case (3 n h stack cache)
  show ?case by simp
next
  case (4 n h stack cache x xs)
  show ?case
  proof (intro allI impI)
    fix js c' assume "ser_elems n h stack cache (x # xs) = Some (Inr (js, c'))"
    then obtain r c1 js' where x: "ser_value n h stack cache x = Some (Inr (r, c1))"
      and xs: "ser_elems n h stack c1 xs = Some (Inr (js', c'))"
      by (auto simp: and_then_eq_Inr)
    from "4.IH"(1) x have "set cache \<subseteq> set c1" by blast
    moreover have "\<forall>js c'. ser_elems n h stack c1 xs = Some (Inr (js, c')) \<longrightarrow> set c1 \<subseteq> set c'"
      by (rule "4.IH"(2))
    ultimately show "set cache \<subseteq> set c'" using xs by blast
  qed
next
  case (5 n h stack cache)
  show ?case by simp
next
  case (6 n h stack cache k x ps)
  show ?case
  proof (intro allI impI)
    fix ms c' assume "ser_props n h stack cache ((k, x) # ps) = Some (Inr (ms, c'))"
    then obtain r c1 ms' where x: "ser_value n h stack cache x = Some (Inr (r, c1))"
      and ps: "ser_props n h stack c1 ps = Some (Inr (ms', c'))"
      by (auto simp: and_then_eq_Inr)
    from "6.IH"(1) x have "set cache \<subseteq> set c1" by blast
    moreover have "\<forall>ms c'. ser_props n h stack c1 ps = Some (Inr (ms, c')) \<longrightarrow> set c1 \<subseteq> set c'"
      by (rule "6.IH"(2))
    ultimately show "set cache \<subseteq> set c'" using ps by blast
  qed
qed

lemma ser_value_cache_mono:
  "ser_value n h stack cache v = Some (Inr (r, c')) \<Longrightarrow> set cache \<subseteq> set c'"
  using ser_cache_mono(1) by blast

lemma ser_value_marked:
  "a \<in> set cache \<Longrightarrow>
     ser_value (Suc n) h stack cache (Ref a) = Some (Inr (Some (JStr circular_marker), cache))"
  by (simp add: replacer_def primitive_json_def)

lemma ser_value_ref_pushed:
  assumes "ser_value n h stack cache (Ref a) = Some (Inr (r, c'))"
  shows "a \<in> set c' \<and> (\<exists>j. r = Some j)"
proof (cases n)
  case 0
  with assms show ?thesis by simp
next
  case (Suc m)
  show ?thesis
  proof (cases "a \<in> set cache")
    case True
    from assms have "Some (Inr (r, c')) = ser_value (Suc m) h stack cache (Ref a)"
      unfolding Suc by (rule sym)
    also have "\<dots> = Some (Inr (Some (JStr circular_marker), cache))"
      by (rule ser_value_marked [OF True])
    finally show ?thesis using True by simp
  next
    case False
    with assms Suc have nst: "a \<notin> set stack"
      by (auto simp: replacer_def split: if_splits)
    show ?thesis
    proof (cases "heap_get h a")
      case (Arr xs)
      with assms Suc False nst obtain js where
        e: "ser_elems m h (a # stack) (cache @ [a]) xs = Some (Inr (js, c'))" and "r = Some (JArr js)"
        by (auto simp: replacer_def and_then_eq_Inr)
      with ser_cache_mono(2) [of m h "a # stack" "cache @ [a]" xs] show ?thesis by auto
    next
      case (Obj ps)
      with assms Suc False nst obtain ms where
        e: "ser_props m h (a # stack) (cache @ [a]) ps = Some (Inr (ms, c'))" and "r = Some (JObj ms)"
        by (auto simp: replacer_def and_then_eq_Inr)
      with ser_cache_mono(3) [of m h "a # stack" "cache @ [a]" ps] show ?thesis by auto
    qed
  qed
qed

lemma ser_props_member:
  "ser_props n h st c ps = Some (Inr (ms, c')) \<Longrightarrow> map_of ps k = Some x \<Longrightarrow>
     \<exists>c1 r c2. set c \<subseteq> set c1 \<and> ser_value n h st c1 x = Some (Inr (r, c2)) \<and>
        (\<forall>j. r = Some j \<longrightarrow> map_of ms k = Some j)"
proof (induction ps arbitrary: c ms)
  case Nil
  then show ?case by simp
next
  case (Cons p ps)
  obtain k' x' where p: "p = (k', x')" by (cases p)
  from Cons.prems(1) p obtain r' c1' ms' where
    x': "ser_value n h st c x' = Some (Inr (r', c1'))" and
    rest: "ser_props n h st c1' ps = Some (Inr (ms', c'))" and
    ms: "ms = (case r' of None \<Rightarrow> [] | Some j \<Rightarrow> [(k', j)]) @ ms'"
    by (auto simp: and_then_eq_Inr)
  show ?case
  proof (cases "k' = k")
    case True
    with Cons.prems(2) p have "x = x'" by simp
    with x' ms True show ?thesis by (intro exI [of _ c] exI [of _ r'] exI [of _ c1']) auto
  next
    case False
    with Cons.prems(2) p have "map_of ps k = Some x" by simp
    from Cons.IH [OF rest this] obtain c1 r c2 where
      "set c1' \<subseteq> set c1" "ser_value n h st c1 x = Some (Inr (r, c2))"
      "\<forall>j. r = Some j \<longrightarrow> map_of ms' k = Some j" by blast
    moreover from ser_value_cache_mono [OF x'] have "set c \<subseteq> set c1'" .
    moreover have "map_of ms k = map_of ms' k" using ms False by (cases r') auto
    ultimately show ?thesis by (intro exI [of _ c1] exI [of _ r] exI [of _ c2]) auto
  qed
qed

lemma ser_elems_nth:
  "ser_elems n h st c xs = Some (Inr (js, c')) \<Longrightarrow> i < length xs \<Longrightarrow>
     length js = length xs \<and>
     (\<exists>c1 r c2. set c \<subseteq> set c1 \<and> ser_value n h st c1 (xs ! i) = Some (Inr (r, c2)) \<and>
        js ! i = (case r of None \<Rightarrow> JNull | Some j \<Rightarrow> j))"
proof (induction xs arbitrary: c js i)
  case Nil
  then show ?case by simp
next
  case (Cons x xs)
  from Cons.prems(1) obtain r' c1' js' where
    x: "ser_value n h st c x = Some (Inr (r', c1'))" and
    rest: "ser_elems n h st c1' xs = Some (Inr (js', c'))" and
    js: "js = (case r' of None \<Rightarrow> JNull | Some j \<Rightarrow> j) # js'"
    by (auto simp: and_then_eq_Inr)
  have len: "length js' = length xs"
  proof (cases xs)
    case Nil
    with rest show ?thesis by simp
  next
    case (Cons y ys)
    then have "0 < length xs" by simp
    from Cons.IH [OF rest this] show ?thesis by simp
  qed
  show ?case
  proof (cases i)
    case 0
    with x js len show ?thesis by (auto intro!: exI [of _ c])
  next
    case (Suc i')
    with Cons.prems(2) have "i' < length xs" by simp
    from Cons.IH [OF rest this] obtain c1 r c2 where
      "set c1' \<subseteq> set c1" "ser_value n h st c1 (xs ! i') = Some (Inr (r, c2))"
      "js' ! i' = (case r of None \<Rightarrow> JNull | Some j \<Rightarrow> j)" by blast
    moreover from ser_value_cache_mono [OF x] have "set c \<subseteq> set c1'" .
    ultimately have "set c \<subseteq> set c1 \<and> ser_value n h st c1 ((x # xs) ! i) = Some (Inr (r, c2)) \<and>
        js ! i = (case r of None \<Rightarrow> JNull | Some j \<Rightarrow> j)"
      using js Suc by auto
    then show ?thesis using js len by auto
  qed
qed

lemma follow_is_ref:
  "follow h x p = Some (Ref a) \<Longrightarrow> \<exists>b. x = Ref b"
  by (cases p; cases x) (auto simp: child_def split: option.splits)

lemma child_serialised:
  assumes ch: "child h (Ref b) s = Some x"
    and xr: "x = Ref d"
    and fresh: "b \<notin> set c"
    and ser: "ser_value n h st c (Ref b) = Some (Inr (Some j, c'))"
  shows "\<exists>m st' c1 jx c2. set (c @ [b]) \<subseteq> set c1 \<and>
           ser_value m h st' c1 x = Some (Inr (Some jx, c2)) \<and> jchild j s = Some jx"
proof -
  from ser obtain m where n: "n = Suc m" by (cases n) auto
  from ser n fresh have nst: "b \<notin> set st"
    by (auto simp: replacer_def split: if_splits)
  show ?thesis
  proof (cases "heap_get h b")
    case (Obj ps)
    with ch obtain k where s: "s = Key k" and mp: "map_of ps k = Some x"
      by (auto simp: child_def split: step.splits)
    from ser n fresh nst Obj obtain ms where
      pr: "ser_props m h (b # st) (c @ [b]) ps = Some (Inr (ms, c'))" and j: "j = JObj ms"
      by (auto simp: replacer_def and_then_eq_Inr)
    from ser_props_member [OF pr mp] obtain c1 r c2 where
      c1: "set (c @ [b]) \<subseteq> set c1" and x: "ser_value m h (b # st) c1 x = Some (Inr (r, c2))"
      and r: "\<forall>jx. r = Some jx \<longrightarrow> map_of ms k = Some jx" by blast
    from ser_value_ref_pushed [OF x [unfolded xr]] obtain jx where "r = Some jx" by blast
    with r x c1 s j show ?thesis
      by (intro exI [of _ m] exI [of _ "b # st"] exI [of _ c1] exI [of _ jx] exI [of _ c2])
         (simp add: jchild_def)
  next
    case (Arr xs)
    with ch obtain i where s: "s = Index i" and i: "i < length xs" and xi: "xs ! i = x"
      by (auto simp: child_def split: step.splits if_splits)
    from ser n fresh nst Arr obtain js where
      el: "ser_elems m h (b # st) (c @ [b]) xs = Some (Inr (js, c'))" and j: "j = JArr js"
      by (auto simp: replacer_def and_then_eq_Inr)
    from ser_elems_nth [OF el i] xi obtain c1 r c2 where
      len: "length js = length xs" and
      c1: "set (c @ [b]) \<subseteq> set c1" and x: "ser_value m h (b # st) c1 x = Some (Inr (r, c2))"
      and r: "js ! i = (case r of None \<Rightarrow> JNull | Some j \<Rightarrow> j)" by blast
    from ser_value_ref_pushed [OF x [unfolded xr]] obtain jx where "r = Some jx" by blast
    with r x c1 s j len i show ?thesis
      by (intro exI [of _ m] exI [of _ "b # st"] exI [of _ c1] exI [of _ jx] exI [of _ c2])
         (simp add: jchild_def)
  qed
qed

lemma marker_on_path:
  "follow h v p = Some (Ref a) \<Longrightarrow>
   a \<in> set c \<or> (\<exists>p1 p2. p = p1 @ p2 \<and> p2 \<noteq> [] \<and> follow h v p1 = Some (Ref a)) \<Longrightarrow>
   ser_value n h st c v = Some (Inr (Some j, c')) \<Longrightarrow>
   \<exists>k\<le>length p. jfollow j (take k p) = Some (JStr circular_marker)"
proof (induction p arbitrary: v c n st j c')
  case Nil
  from Nil.prems(1) have v: "v = Ref a" by simp
  from Nil.prems(2) have a: "a \<in> set c" by simp
  from Nil.prems(3) obtain m where n: "n = Suc m" by (cases n) auto
  from Nil.prems(3) [unfolded v n] ser_value_marked [OF a, of m h st]
  have "j = JStr circular_marker" by simp
  then show ?case by simp
next
  case (Cons s p)
  from Cons.prems(1) obtain b where v: "v = Ref b" using follow_is_ref by blast
  from Cons.prems(1) v obtain x where ch: "child h (Ref b) s = Some x"
    and fx: "follow h x p = Some (Ref a)"
    by (auto split: option.splits)
  from fx obtain d where xr: "x = Ref d" using follow_is_ref by blast
  from Cons.prems(3) obtain m where n: "n = Suc m" by (cases n) auto
  show ?case
  proof (cases "b \<in> set c")
    case True
    from Cons.prems(3) [unfolded v n] ser_value_marked [OF True, of m h st]
    have "j = JStr circular_marker" by simp
    then have "jfollow j (take 0 (s # p)) = Some (JStr circular_marker)" by simp
    then show ?thesis by blast
  next
    case False
    from child_serialised [OF ch xr False Cons.prems(3) [unfolded v]]
    obtain m' st' c1 jx c2 where c1: "set (c @ [b]) \<subseteq> set c1"
      and sx: "ser_value m' h st' c1 x = Some (Inr (Some jx, c2))"
      and jc: "jchild j s = Some jx" by blast
    have cond: "a \<in> set c1 \<or> (\<exists>p1 p2. p = p1 @ p2 \<and> p2 \<noteq> [] \<and> follow h x p1 = Some (Ref a))"
      using Cons.prems(2)
    proof
      assume "a \<in> set c"
      with c1 show ?thesis by auto
    next
      assume "\<exists>p1 p2. s # p = p1 @ p2 \<and> p2 \<noteq> [] \<and> follow h v p1 = Some (Ref a)"
      then obtain p1 p2 where sp: "s # p = p1 @ p2" and ne: "p2 \<noteq> []"
        and f1: "follow h v p1 = Some (Ref a)" by blast
      show ?thesis
      proof (cases p1)
        case Nil
        with f1 v have "b = a" by simp
        with c1 show ?thesis by auto
      next
        case (Cons s' p1')
        with sp have "s' = s" "p = p1' @ p2" by simp_all
        moreover from f1 Cons v ch \<open>s' = s\<close> have "follow h x p1' = Some (Ref a)" by simp
        ultimately show ?thesis using ne by blast
      qed
    qed
    from Cons.IH [OF fx cond sx] obtain k where k: "k \<le> length p"
      and mk: "jfollow jx (take k p) = Some (JStr circular_marker)" by blast
    from jc mk have "jfollow j (take (Suc k) (s # p)) = Some (JStr circular_marker)" by simp
    moreover have "Suc k \<le> length (s # p)" using k by simp
    ultimately show ?thesis by blast
  qed
qed

lemma uncached_le: "uncached h c \<le> length h"
  unfolding uncached_def by (metis card_Diff_subset_Int card_lessThan diff_le_self finite_Int finite_lessThan finite_set)

lemma follow_append:
  "follow h v (p @ q) = (case follow h v p of None \<Rightarrow> None | Some x \<Rightarrow> follow h x q)"
  by (induction p arbitrary: v) (auto split: option.splits)

lemma message_json_parts:
  "\<exists>jargs c1 jmeta c2.
     ser_value (Suc (length h)) h [] [] (args m) = Some (Inr (jargs, c1)) \<and>
     ser_value (Suc (length h)) h [] c1 (meta m) = Some (Inr (jmeta, c2)) \<and>
     message_json (Suc (length h)) h m =
       Some (Inr (JObj
         (member ''args'' jargs
          @ member ''caller'' (Some (case caller m of None \<Rightarrow> JNull | Some c \<Rightarrow> caller_json c))
          @ member ''date'' (Some (JNum (date m)))
          @ member ''level'' (Some (JStr (level_text (level m))))
          @ member ''meta'' jmeta
          @ member ''name'' (map_option JStr (name m)))))"
proof -
  have "uncached h [] < Suc (length h)" using uncached_le [of h "[]"] by simp
  with ser_total(1) [of "[]" "[]" h "Suc (length h)" "args m"]
  obtain jargs c1 where a: "ser_value (Suc (length h)) h [] [] (args m) = Some (Inr (jargs, c1))"
    by auto
  have "uncached h c1 < Suc (length h)" using uncached_le [of h c1] by simp
  with ser_total(1) [of "[]" c1 h "Suc (length h)" "meta m"]
  obtain jmeta c2 where b: "ser_value (Suc (length h)) h [] c1 (meta m) = Some (Inr (jmeta, c2))"
    by auto
  from a b show ?thesis unfolding message_json_def by (simp del: ser_value.simps)
qed

lemma render_json:
  "message_json (Suc (length h)) h (toMessage l) = Some (Inr j) \<Longrightarrow>
     render w h l (Template ''json'') = (Inr (Str (json_text j)), w)"
  by (simp add: render_def stringify_message_def)

lemma toMessage_fields [simp]:
  "args (toMessage l) = args l" "meta (toMessage l) = meta l" "date (toMessage l) = date l"
  "level (toMessage l) = level l" "name (toMessage l) = name l" "caller (toMessage l) = caller l"
  by (simp_all add: toMessage_def)

lemma and_then_Some: "and_then r k = Some x \<Longrightarrow> \<exists>y. r = Some y"
  by (cases r) (auto simp: and_then_def)

lemma ser_fuel_mono:
  "(\<forall>m x. ser_value n h stack cache v = Some x \<longrightarrow> n \<le> m \<longrightarrow> ser_value m h stack cache v = Some x)"
  "(\<forall>m x. ser_elems n h stack cache xs = Some x \<longrightarrow> n \<le> m \<longrightarrow> ser_elems m h stack cache xs = Some x)"
  "(\<forall>m x. ser_props n h stack cache ps = Some x \<longrightarrow> n \<le> m \<longrightarrow> ser_props m h stack cache ps = Some x)"
proof (induction n h stack cache v and n h stack cache xs and n h stack cache ps
    rule: ser_value_ser_elems_ser_props.induct)
  case (1 h stack cache v)
  show ?case by simp
next
  case (2 n h stack cache v)
  show ?case
  proof (intro allI impI)
    fix m x assume res: "ser_value (Suc n) h stack cache v = Some x" and le: "Suc n \<le> m"
    from le obtain m' where m: "m = Suc m'" and le': "n \<le> m'" by (cases m) auto
    obtain v' cache' where rp: "replacer cache v = (v', cache')" by (cases "replacer cache v")
    show "ser_value m h stack cache v = Some x"
    proof (cases v')
      case (Ref a)
      show ?thesis
      proof (cases "a \<in> set stack")
        case True
        with res rp Ref m show ?thesis by simp
      next
        case nst: False
        show ?thesis
        proof (cases "heap_get h a")
          case (Arr xs)
          with res rp Ref nst have r: "and_then (ser_elems n h (a # stack) cache' xs)
              (\<lambda>js cache''. Some (Inr (Some (JArr js), cache''))) = Some x" by simp
          then obtain y where y: "ser_elems n h (a # stack) cache' xs = Some y"
            using and_then_Some by blast
          with "2.IH"(2) [OF rp [symmetric] Ref nst Arr] le'
          have "ser_elems m' h (a # stack) cache' xs = Some y" by blast
          with r y rp Ref nst Arr m show ?thesis by simp
        next
          case (Obj ps)
          with res rp Ref nst have r: "and_then (ser_props n h (a # stack) cache' ps)
              (\<lambda>ms cache''. Some (Inr (Some (JObj ms), cache''))) = Some x" by simp
          then obtain y where y: "ser_props n h (a # stack) cache' ps = Some y"
            using and_then_Some by blast
          with "2.IH"(1) [OF rp [symmetric] Ref nst Obj] le'
          have "ser_props m' h (a # stack) cache' ps = Some y" by blast
          with r y rp Ref nst Obj m show ?thesis by simp
        qed
      qed
    qed (use res rp m in simp_all)
  qed
next
  case (3 n h stack cache)
  show ?case by simp
next
  case (4 n h stack cache x xs)
  show ?case
  proof (intro allI impI)
    fix m z assume res: "ser_elems n h stack cache (x # xs) = Some z" and le: "n \<le> m"
    from res obtain y where y: "ser_value n h stack cache x = Some y"
      using and_then_Some by fastforce
    with "4.IH"(1) le have y': "ser_value m h stack cache x = Some y" by blast
    show "ser_elems m h stack cache (x # xs) = Some z"
    proof (cases y)
      case (Inl e)
      with res y y' show ?thesis by simp
    next
      case (Inr rc)
      obtain r c1 where rc: "rc = (r, c1)" by (cases rc)
      from res y Inr rc obtain y2 where y2: "ser_elems n h stack c1 xs = Some y2"
        using and_then_Some by fastforce
      have "\<forall>m x. ser_elems n h stack c1 xs = Some x \<longrightarrow> n \<le> m \<longrightarrow> ser_elems m h stack c1 xs = Some x"
        by (rule "4.IH"(2))
      with y2 le have "ser_elems m h stack c1 xs = Some y2" by blast
      with res y y' Inr rc y2 show ?thesis by simp
    qed
  qed
next
  case (5 n h stack cache)
  show ?case by simp
next
  case (6 n h stack cache k x ps)
  show ?case
  proof (intro allI impI)
    fix m z assume res: "ser_props n h stack cache ((k, x) # ps) = Some z" and le: "n \<le> m"
    from res obtain y where y: "ser_value n h stack cache x = Some y"
      using and_then_Some by fastforce
    with "6.IH"(1) le have y': "ser_value m h stack cache x = Some y" by blast
    show "ser_props m h stack cache ((k, x) # ps) = Some z"
    proof (cases y)
      case (Inl e)
      with res y y' show ?thesis by simp
    next
      case (Inr rc)
      obtain r c1 where rc: "rc = (r, c1)" by (cases rc)
      from res y Inr rc obtain y2 where y2: "ser_props n h stack c1 ps = Some y2"
        using and_then_Some by fastforce
      have "\<forall>m x. ser_props n h stack c1 ps = Some x \<longrightarrow> n \<le> m \<longrightarrow> ser_props m h stack c1 ps = Some x"
        by (rule "6.IH"(2))
      with y2 le have "ser_props m h stack c1 ps = Some y2" by blast
      with res y y' Inr rc y2 show ?thesis by simp
    qed
  qed
qed

lemma ser_value_fuel_indep:
  assumes "ser_value n h stack cache v = Some x" and "ser_value m h stack cache v = Some y"
  shows "x = y"
proof -
  from ser_fuel_mono(1) assms(1) have "ser_value (max n m) h stack cache v = Some x"
    by (meson max.cobounded1)
  moreover from ser_fuel_mono(1) assms(2) have "ser_value (max n m) h stack cache v = Some y"
    by (meson max.cobounded2)
  ultimately show ?thesis by simp
qed

lemma spec_document_ser:
  "(\<forall>r seen' stack. spec_document n h seen v = Some (r, seen') \<longrightarrow> set stack \<subseteq> set seen \<longrightarrow>
      ser_value n h stack seen v = Some (Inr (r, seen')))"
  "(\<forall>js seen' stack. spec_document_elems n h seen xs = Some (js, seen') \<longrightarrow> set stack \<subseteq> set seen \<longrightarrow>
      ser_elems n h stack seen xs = Some (Inr (js, seen')))"
  "(\<forall>ms seen' stack. spec_document_props n h seen ps = Some (ms, seen') \<longrightarrow> set stack \<subseteq> set seen \<longrightarrow>
      ser_props n h stack seen ps = Some (Inr (ms, seen')))"
proof (induction n h seen v and n h seen xs and n h seen ps
    rule: spec_document_spec_document_elems_spec_document_props.induct)
  case (1 h seen v)
  show ?case by simp
next
  case (2 n h seen v)
  show ?case
  proof (intro allI impI)
    fix r seen' stack
    assume doc: "spec_document (Suc n) h seen v = Some (r, seen')" and st: "set stack \<subseteq> set seen"
    show "ser_value (Suc n) h stack seen v = Some (Inr (r, seen'))"
    proof (cases v)
      case (Ref a)
      with doc have fresh: "a \<notin> set seen" by (auto split: if_splits)
      with st have nst: "a \<notin> set stack" by auto
      have st': "set (a # stack) \<subseteq> set (seen @ [a])" using st by auto
      have rp: "replacer seen v = (Ref a, seen @ [a])" using Ref fresh by (simp add: replacer_def)
      show ?thesis
      proof (cases "heap_get h a")
        case (Arr xs)
        with doc Ref fresh obtain js where
          e: "spec_document_elems n h (seen @ [a]) xs = Some (js, seen')" and r: "r = Some (JArr js)"
          by (auto split: option.splits)
        from "2.IH"(2) [OF Ref fresh Arr] e st'
        have "ser_elems n h (a # stack) (seen @ [a]) xs = Some (Inr (js, seen'))" by blast
        with rp nst Arr r show ?thesis by simp
      next
        case (Obj ps)
        with doc Ref fresh obtain ms where
          e: "spec_document_props n h (seen @ [a]) ps = Some (ms, seen')" and r: "r = Some (JObj ms)"
          by (auto split: option.splits)
        from "2.IH"(1) [OF Ref fresh Obj] e st'
        have "ser_props n h (a # stack) (seen @ [a]) ps = Some (Inr (ms, seen'))" by blast
        with rp nst Obj r show ?thesis by simp
      qed
    qed (use doc in \<open>simp_all add: replacer_def\<close>)
  qed
next
  case (3 n h seen)
  show ?case by simp
next
  case (4 n h seen x xs)
  show ?case
  proof (intro allI impI)
    fix js seen' stack
    assume doc: "spec_document_elems n h seen (x # xs) = Some (js, seen')" and st: "set stack \<subseteq> set seen"
    from doc obtain j s1 js' where x: "spec_document n h seen x = Some (Some j, s1)"
      and rest: "spec_document_elems n h s1 xs = Some (js', seen')" and js: "js = j # js'"
      by (auto split: option.splits)
    from "4.IH"(1) x st have sx: "ser_value n h stack seen x = Some (Inr (Some j, s1))" by blast
    from ser_value_cache_mono [OF sx] st have st1: "set stack \<subseteq> set s1" by auto
    have "\<forall>js seen' stack. spec_document_elems n h s1 xs = Some (js, seen') \<longrightarrow> set stack \<subseteq> set s1 \<longrightarrow>
      ser_elems n h stack s1 xs = Some (Inr (js, seen'))"
      by (rule "4.IH"(2) [OF x refl refl])
    with rest st1 have "ser_elems n h stack s1 xs = Some (Inr (js', seen'))" by blast
    with sx js show "ser_elems n h stack seen (x # xs) = Some (Inr (js, seen'))" by simp
  qed
next
  case (5 n h seen)
  show ?case by simp
next
  case (6 n h seen k x ps)
  show ?case
  proof (intro allI impI)
    fix ms seen' stack
    assume doc: "spec_document_props n h seen ((k, x) # ps) = Some (ms, seen')" and st: "set stack \<subseteq> set seen"
    from doc obtain r s1 ms' where x: "spec_document n h seen x = Some (r, s1)"
      and rest: "spec_document_props n h s1 ps = Some (ms', seen')" and ms: "ms = member k r @ ms'"
      by (auto split: option.splits)
    from "6.IH"(1) x st have sx: "ser_value n h stack seen x = Some (Inr (r, s1))" by blast
    from ser_value_cache_mono [OF sx] st have st1: "set stack \<subseteq> set s1" by auto
    have "\<forall>ms seen' stack. spec_document_props n h s1 ps = Some (ms, seen') \<longrightarrow> set stack \<subseteq> set s1 \<longrightarrow>
      ser_props n h stack s1 ps = Some (Inr (ms, seen'))"
      by (rule "6.IH"(2) [OF x refl])
    with rest st1 have "ser_props n h stack s1 ps = Some (Inr (ms', seen'))" by blast
    with sx ms show "ser_props n h stack seen ((k, x) # ps) = Some (Inr (ms, seen'))"
      by (simp add: member_def)
  qed
qed

lemma jchild_message:
  "jchild (JObj (member ''args'' ja @ member ''caller'' (Some jc) @ member ''date'' (Some jd)
      @ member ''level'' (Some jl) @ member ''meta'' jm @ member ''name'' jn)) (Key ''args'') = ja"
  "jchild (JObj (member ''args'' ja @ member ''caller'' (Some jc) @ member ''date'' (Some jd)
      @ member ''level'' (Some jl) @ member ''meta'' jm @ member ''name'' jn)) (Key ''date'') = Some jd"
  "jchild (JObj (member ''args'' ja @ member ''caller'' (Some jc) @ member ''date'' (Some jd)
      @ member ''level'' (Some jl) @ member ''meta'' jm @ member ''name'' jn)) (Key ''level'') = Some jl"
  "jchild (JObj (member ''args'' ja @ member ''caller'' (Some jc) @ member ''date'' (Some jd)
      @ member ''level'' (Some jl) @ member ''meta'' jm @ member ''name'' jn)) (Key ''meta'') = jm"
  "jchild (JObj (member ''args'' ja @ member ''caller'' (Some jc) @ member ''date'' (Some jd)
      @ member ''level'' (Some jl) @ member ''meta'' jm @ member ''name'' jn)) (Key ''name'') = jn"
  by (auto simp: jchild_def member_def split: option.splits)

section \<open>Order of the serialisation: properties\<close>

lemma closed_cache_iff:
  "closed_cache h c st \<longleftrightarrow> (\<forall>b\<in>set c - set st. \<forall>d. Ref d \<in> set (held h b) \<longrightarrow> d \<in> set c)"
proof -
  have "list_all (\<lambda>x. case x of Ref d \<Rightarrow> d \<in> set c | _ \<Rightarrow> True) xs \<longleftrightarrow>
          (\<forall>d. Ref d \<in> set xs \<longrightarrow> d \<in> set c)" for xs
    by (induction xs) (auto split: jsval.splits)
  then show ?thesis by (auto simp: closed_cache_def list_all_iff)
qed

lemma closed_cache_push:
  assumes "closed_cache h c st"
  shows "closed_cache h (c @ [a]) (a # st)"
  unfolding closed_cache_iff
proof (intro ballI allI impI)
  fix b d assume b: "b \<in> set (c @ [a]) - set (a # st)" and d: "Ref d \<in> set (held h b)"
  from b have "b \<in> set c - set st" by auto
  with assms d have "d \<in> set c" unfolding closed_cache_iff by blast
  then show "d \<in> set (c @ [a])" by simp
qed

lemma closed_cache_pop:
  assumes "closed_cache h c' (a # st)" and "\<forall>d. Ref d \<in> set (held h a) \<longrightarrow> d \<in> set c'"
  shows "closed_cache h c' st"
  unfolding closed_cache_iff
proof (intro ballI allI impI)
  fix b d assume b: "b \<in> set c' - set st" and d: "Ref d \<in> set (held h b)"
  show "d \<in> set c'"
  proof (cases "b = a")
    case True
    with assms(2) d show ?thesis by blast
  next
    case False
    with b have "b \<in> set c' - set (a # st)" by auto
    with assms(1) d show ?thesis unfolding closed_cache_iff by blast
  qed
qed

lemma closed_cache_nil [simp]: "closed_cache h [] st"
  by (simp add: closed_cache_def)

lemma ser_closed:
  "(\<forall>r c'. ser_value n h stack cache v = Some (Inr (r, c')) \<longrightarrow> closed_cache h cache stack \<longrightarrow>
      closed_cache h c' stack)"
  "(\<forall>js c'. ser_elems n h stack cache xs = Some (Inr (js, c')) \<longrightarrow> closed_cache h cache stack \<longrightarrow>
      closed_cache h c' stack \<and> (\<forall>d. Ref d \<in> set xs \<longrightarrow> d \<in> set c'))"
  "(\<forall>ms c'. ser_props n h stack cache ps = Some (Inr (ms, c')) \<longrightarrow> closed_cache h cache stack \<longrightarrow>
      closed_cache h c' stack \<and> (\<forall>d. Ref d \<in> snd ` set ps \<longrightarrow> d \<in> set c'))"
proof (induction n h stack cache v and n h stack cache xs and n h stack cache ps
    rule: ser_value_ser_elems_ser_props.induct)
  case (1 h stack cache v)
  show ?case by simp
next
  case (2 n h stack cache v)
  show ?case
  proof (intro allI impI)
    fix r c' assume res: "ser_value (Suc n) h stack cache v = Some (Inr (r, c'))"
      and cl: "closed_cache h cache stack"
    obtain v' cache' where rp: "replacer cache v = (v', cache')" by (cases "replacer cache v")
    from replacer_cases [OF rp]
    consider (marked) a where "v = Ref a" "a \<in> set cache" "v' = Str circular_marker" "cache' = cache"
      | (fresh) a where "v = Ref a" "a \<notin> set cache" "v' = Ref a" "cache' = cache @ [a]"
      | (prim) "\<forall>a. v \<noteq> Ref a" "v' = v" "cache' = cache"
      by blast
    then show "closed_cache h c' stack"
    proof cases
      case marked
      with rp res cl show ?thesis by simp
    next
      case prim
      with rp res cl show ?thesis by (cases v) simp_all
    next
      case fresh
      from res rp fresh have nst: "a \<notin> set stack" by (auto split: if_splits)
      from closed_cache_push [OF cl] fresh have cl': "closed_cache h cache' (a # stack)" by simp
      show ?thesis
      proof (cases "heap_get h a")
        case (Arr xs)
        with res rp fresh nst obtain js where "ser_elems n h (a # stack) cache' xs = Some (Inr (js, c'))"
          by (auto simp: and_then_eq_Inr)
        with "2.IH"(2) [OF rp [symmetric] fresh(3) nst Arr] cl'
        have "closed_cache h c' (a # stack)" "\<forall>d. Ref d \<in> set xs \<longrightarrow> d \<in> set c'" by blast+
        with Arr show ?thesis by (intro closed_cache_pop [of h c' a stack]) (simp_all add: held_def)
      next
        case (Obj ps)
        with res rp fresh nst obtain ms where "ser_props n h (a # stack) cache' ps = Some (Inr (ms, c'))"
          by (auto simp: and_then_eq_Inr)
        with "2.IH"(1) [OF rp [symmetric] fresh(3) nst Obj] cl'
        have "closed_cache h c' (a # stack)" "\<forall>d. Ref d \<in> snd ` set ps \<longrightarrow> d \<in> set c'" by blast+
        with Obj show ?thesis by (intro closed_cache_pop [of h c' a stack]) (simp_all add: held_def)
      qed
    qed
  qed
next
  case (3 n h stack cache)
  show ?case by simp
next
  case (4 n h stack cache x xs)
  show ?case
  proof (intro allI impI)
    fix js c' assume "ser_elems n h stack cache (x # xs) = Some (Inr (js, c'))"
      and cl: "closed_cache h cache stack"
    then obtain r c1 js' where x: "ser_value n h stack cache x = Some (Inr (r, c1))"
      and xs: "ser_elems n h stack c1 xs = Some (Inr (js', c'))"
      by (auto simp: and_then_eq_Inr)
    from "4.IH"(1) x cl have cl1: "closed_cache h c1 stack" by blast
    have "\<forall>js c'. ser_elems n h stack c1 xs = Some (Inr (js, c')) \<longrightarrow> closed_cache h c1 stack \<longrightarrow>
      closed_cache h c' stack \<and> (\<forall>d. Ref d \<in> set xs \<longrightarrow> d \<in> set c')"
      by (rule "4.IH"(2))
    with xs cl1 have cl2: "closed_cache h c' stack" and rest: "\<forall>d. Ref d \<in> set xs \<longrightarrow> d \<in> set c'"
      by blast+
    have "d \<in> set c'" if "x = Ref d" for d
    proof -
      from ser_value_ref_pushed [OF x [unfolded that]] have "d \<in> set c1" by simp
      with ser_cache_mono(2) [of n h stack c1 xs] xs show ?thesis by blast
    qed
    with cl2 rest show "closed_cache h c' stack \<and> (\<forall>d. Ref d \<in> set (x # xs) \<longrightarrow> d \<in> set c')"
      by auto
  qed
next
  case (5 n h stack cache)
  show ?case by simp
next
  case (6 n h stack cache k x ps)
  show ?case
  proof (intro allI impI)
    fix ms c' assume "ser_props n h stack cache ((k, x) # ps) = Some (Inr (ms, c'))"
      and cl: "closed_cache h cache stack"
    then obtain r c1 ms' where x: "ser_value n h stack cache x = Some (Inr (r, c1))"
      and ps: "ser_props n h stack c1 ps = Some (Inr (ms', c'))"
      by (auto simp: and_then_eq_Inr)
    from "6.IH"(1) x cl have cl1: "closed_cache h c1 stack" by blast
    have "\<forall>ms c'. ser_props n h stack c1 ps = Some (Inr (ms, c')) \<longrightarrow> closed_cache h c1 stack \<longrightarrow>
      closed_cache h c' stack \<and> (\<forall>d. Ref d \<in> snd ` set ps \<longrightarrow> d \<in> set c')"
      by (rule "6.IH"(2))
    with ps cl1 have cl2: "closed_cache h c' stack" and rest: "\<forall>d. Ref d \<in> snd ` set ps \<longrightarrow> d \<in> set c'"
      by blast+
    have "d \<in> set c'" if "x = Ref d" for d
    proof -
      from ser_value_ref_pushed [OF x [unfolded that]] have "d \<in> set c1" by simp
      with ser_cache_mono(3) [of n h stack c1 ps] ps show ?thesis by blast
    qed
    with cl2 rest show "closed_cache h c' stack \<and> (\<forall>d. Ref d \<in> snd ` set ((k, x) # ps) \<longrightarrow> d \<in> set c')"
      by auto
  qed
qed

lemma ser_value_closed:
  assumes "ser_value n h st c v = Some (Inr (r, c'))" and "closed_cache h c st"
  shows "closed_cache h c' st"
proof -
  from ser_closed(1) [of n h st c v]
  have "ser_value n h st c v = Some (Inr (r, c')) \<longrightarrow> closed_cache h c st \<longrightarrow> closed_cache h c' st"
    by (elim allE)
  with assms show ?thesis by simp
qed

lemma child_held:
  assumes "child h (Ref b) s = Some (Ref d)"
  shows "Ref d \<in> set (held h b)"
proof (cases "heap_get h b")
  case (Obj ps)
  with assms obtain k where "map_of ps k = Some (Ref d)"
    by (auto simp: child_def split: step.splits)
  then have "(k, Ref d) \<in> set ps" by (rule map_of_SomeD)
  then have "snd (k, Ref d) \<in> snd ` set ps" by (rule imageI)
  with Obj show ?thesis by (simp add: held_def)
next
  case (Arr xs)
  with assms obtain i where "i < length xs" "xs ! i = Ref d"
    by (auto simp: child_def split: step.splits if_splits)
  then have "Ref d \<in> set xs" by (auto simp: in_set_conv_nth)
  with Arr show ?thesis by (simp add: held_def)
qed

lemma closed_reach:
  assumes cl: "closed_cache h C st"
  shows "b \<in> set C \<Longrightarrow> follow h (Ref b) p = Some (Ref a) \<Longrightarrow>
     set (visits h (Ref b) p) \<inter> set st = {} \<Longrightarrow> a \<in> set C"
proof (induction p arbitrary: b)
  case Nil
  then show ?case by simp
next
  case (Cons s p)
  from Cons.prems(2) obtain x where ch: "child h (Ref b) s = Some x"
    and fx: "follow h x p = Some (Ref a)"
    by (auto split: option.splits)
  from fx obtain d where xr: "x = Ref d" using follow_is_ref by blast
  from Cons.prems(3) ch have nst: "b \<notin> set st" and off: "set (visits h (Ref d) p) \<inter> set st = {}"
    by (auto simp: xr)
  from child_held [OF ch [unfolded xr]] have "Ref d \<in> set (held h b)" .
  with cl Cons.prems(1) nst have "d \<in> set C" unfolding closed_cache_iff by blast
  from Cons.IH [OF this fx [unfolded xr] off] show ?case .
qed

lemma ser_value_reach:
  assumes ser: "ser_value n h st c v = Some (Inr (r, c'))"
    and cl: "closed_cache h c st"
    and f: "follow h v p = Some (Ref a)"
    and off: "set (visits h v p) \<inter> set st = {}"
  shows "a \<in> set c'"
proof -
  from f obtain b where v: "v = Ref b" using follow_is_ref by blast
  from ser_value_ref_pushed [OF ser [unfolded v]] have b: "b \<in> set c'" by simp
  from ser_value_closed [OF ser cl] have cl': "closed_cache h c' st" .
  from closed_reach [OF cl' b f [unfolded v] off [unfolded v]] show ?thesis .
qed

lemma position_Cons:
  "position ((k', x) # ps) k = (if k' = k then 0 else Suc (position ps k))"
  by (simp add: position_def)

lemma ser_props_two:
  "ser_props n h st c ps = Some (Inr (ms, c')) \<Longrightarrow> closed_cache h c st \<Longrightarrow>
   map_of ps k1 = Some x1 \<Longrightarrow> map_of ps k2 = Some x2 \<Longrightarrow> position ps k1 < position ps k2 \<Longrightarrow>
     \<exists>cA rA cB cC rC cD. closed_cache h cA st \<and> set c \<subseteq> set cA \<and>
        ser_value n h st cA x1 = Some (Inr (rA, cB)) \<and> set cB \<subseteq> set cC \<and>
        ser_value n h st cC x2 = Some (Inr (rC, cD)) \<and>
        (\<forall>j. rC = Some j \<longrightarrow> map_of ms k2 = Some j)"
proof (induction ps arbitrary: c ms)
  case Nil
  then show ?case by simp
next
  case (Cons p ps)
  obtain k' x' where p: "p = (k', x')" by (cases p)
  from Cons.prems(1) p obtain r' c1' ms' where
    x': "ser_value n h st c x' = Some (Inr (r', c1'))" and
    rest: "ser_props n h st c1' ps = Some (Inr (ms', c'))" and
    ms: "ms = (case r' of None \<Rightarrow> [] | Some j \<Rightarrow> [(k', j)]) @ ms'"
    by (auto simp: and_then_eq_Inr)
  from Cons.prems(5) p have k2: "k' \<noteq> k2" by (auto simp: position_Cons split: if_splits)
  with Cons.prems(4) p have m2: "map_of ps k2 = Some x2" by simp
  have same: "map_of ms k2 = map_of ms' k2" using ms k2 by (cases r') auto
  show ?case
  proof (cases "k' = k1")
    case True
    with Cons.prems(3) p have "x1 = x'" by simp
    from ser_props_member [OF rest m2] obtain c1 r c2 where
      c1: "set c1' \<subseteq> set c1" and x2: "ser_value n h st c1 x2 = Some (Inr (r, c2))"
      and r: "\<forall>j. r = Some j \<longrightarrow> map_of ms' k2 = Some j" by blast
    have "closed_cache h c st \<and> set c \<subseteq> set c \<and>
        ser_value n h st c x1 = Some (Inr (r', c1')) \<and> set c1' \<subseteq> set c1 \<and>
        ser_value n h st c1 x2 = Some (Inr (r, c2)) \<and>
        (\<forall>j. r = Some j \<longrightarrow> map_of ms k2 = Some j)"
      using Cons.prems(2) x' \<open>x1 = x'\<close> c1 x2 r same by simp
    then show ?thesis by blast
  next
    case False
    with Cons.prems(3) p have m1: "map_of ps k1 = Some x1" by simp
    from Cons.prems(5) p False k2 have pos: "position ps k1 < position ps k2"
      by (simp add: position_Cons)
    from ser_value_closed [OF x' Cons.prems(2)] have cl1: "closed_cache h c1' st" .
    from Cons.IH [OF rest cl1 m1 m2 pos] obtain cA rA cB cC rC cD where
      "closed_cache h cA st" "set c1' \<subseteq> set cA"
      "ser_value n h st cA x1 = Some (Inr (rA, cB))" "set cB \<subseteq> set cC"
      "ser_value n h st cC x2 = Some (Inr (rC, cD))"
      "\<forall>j. rC = Some j \<longrightarrow> map_of ms' k2 = Some j" by blast
    moreover from ser_value_cache_mono [OF x'] have "set c \<subseteq> set c1'" .
    ultimately have "closed_cache h cA st \<and> set c \<subseteq> set cA \<and>
        ser_value n h st cA x1 = Some (Inr (rA, cB)) \<and> set cB \<subseteq> set cC \<and>
        ser_value n h st cC x2 = Some (Inr (rC, cD)) \<and>
        (\<forall>j. rC = Some j \<longrightarrow> map_of ms k2 = Some j)"
      using same by auto
    then show ?thesis by blast
  qed
qed

lemma ser_props_member_closed:
  "ser_props n h st c ps = Some (Inr (ms, c')) \<Longrightarrow> closed_cache h c st \<Longrightarrow>
   map_of ps k = Some x \<Longrightarrow>
     \<exists>c1 r c2. closed_cache h c1 st \<and> set c \<subseteq> set c1 \<and>
        ser_value n h st c1 x = Some (Inr (r, c2)) \<and>
        (\<forall>j. r = Some j \<longrightarrow> map_of ms k = Some j)"
proof (induction ps arbitrary: c ms)
  case Nil
  then show ?case by simp
next
  case (Cons p ps)
  obtain k' x' where p: "p = (k', x')" by (cases p)
  from Cons.prems(1) p obtain r' c1' ms' where
    x': "ser_value n h st c x' = Some (Inr (r', c1'))" and
    rest: "ser_props n h st c1' ps = Some (Inr (ms', c'))" and
    ms: "ms = (case r' of None \<Rightarrow> [] | Some j \<Rightarrow> [(k', j)]) @ ms'"
    by (auto simp: and_then_eq_Inr)
  show ?case
  proof (cases "k' = k")
    case True
    with Cons.prems(3) p have "x = x'" by simp
    with x' ms True Cons.prems(2) have "closed_cache h c st \<and> set c \<subseteq> set c \<and>
        ser_value n h st c x = Some (Inr (r', c1')) \<and>
        (\<forall>j. r' = Some j \<longrightarrow> map_of ms k = Some j)" by auto
    then show ?thesis by blast
  next
    case False
    with Cons.prems(3) p have m: "map_of ps k = Some x" by simp
    from ser_value_closed [OF x' Cons.prems(2)] have cl1: "closed_cache h c1' st" .
    from Cons.IH [OF rest cl1 m] obtain c1 r c2 where
      "closed_cache h c1 st" "set c1' \<subseteq> set c1" "ser_value n h st c1 x = Some (Inr (r, c2))"
      "\<forall>j. r = Some j \<longrightarrow> map_of ms' k = Some j" by blast
    moreover from ser_value_cache_mono [OF x'] have "set c \<subseteq> set c1'" .
    moreover have "map_of ms k = map_of ms' k" using ms False by (cases r') auto
    ultimately have "closed_cache h c1 st \<and> set c \<subseteq> set c1 \<and>
        ser_value n h st c1 x = Some (Inr (r, c2)) \<and>
        (\<forall>j. r = Some j \<longrightarrow> map_of ms k = Some j)" by auto
    then show ?thesis by blast
  qed
qed

lemma ser_elems_length:
  "ser_elems n h st c xs = Some (Inr (js, c')) \<Longrightarrow> length js = length xs"
proof (induction xs arbitrary: c js)
  case Nil
  then show ?case by simp
next
  case (Cons x xs)
  from Cons.prems obtain r' c1' js' where
    rest: "ser_elems n h st c1' xs = Some (Inr (js', c'))" and
    js: "js = (case r' of None \<Rightarrow> JNull | Some j \<Rightarrow> j) # js'"
    by (auto simp: and_then_eq_Inr)
  from Cons.IH [OF rest] js show ?case by simp
qed

lemma ser_elems_nth_closed:
  "ser_elems n h st c xs = Some (Inr (js, c')) \<Longrightarrow> closed_cache h c st \<Longrightarrow> i < length xs \<Longrightarrow>
     \<exists>c1 r c2. closed_cache h c1 st \<and> set c \<subseteq> set c1 \<and>
        ser_value n h st c1 (xs ! i) = Some (Inr (r, c2)) \<and>
        js ! i = (case r of None \<Rightarrow> JNull | Some j \<Rightarrow> j)"
proof (induction xs arbitrary: c js i)
  case Nil
  then show ?case by simp
next
  case (Cons x xs)
  from Cons.prems(1) obtain r' c1' js' where
    x: "ser_value n h st c x = Some (Inr (r', c1'))" and
    rest: "ser_elems n h st c1' xs = Some (Inr (js', c'))" and
    js: "js = (case r' of None \<Rightarrow> JNull | Some j \<Rightarrow> j) # js'"
    by (auto simp: and_then_eq_Inr)
  show ?case
  proof (cases i)
    case 0
    with x js Cons.prems(2) have "closed_cache h c st \<and> set c \<subseteq> set c \<and>
        ser_value n h st c ((x # xs) ! i) = Some (Inr (r', c1')) \<and>
        js ! i = (case r' of None \<Rightarrow> JNull | Some j \<Rightarrow> j)" by simp
    then show ?thesis by blast
  next
    case (Suc i')
    with Cons.prems(3) have i': "i' < length xs" by simp
    from ser_value_closed [OF x Cons.prems(2)] have cl1: "closed_cache h c1' st" .
    from Cons.IH [OF rest cl1 i'] obtain c1 r c2 where
      "closed_cache h c1 st" "set c1' \<subseteq> set c1" "ser_value n h st c1 (xs ! i') = Some (Inr (r, c2))"
      "js' ! i' = (case r of None \<Rightarrow> JNull | Some j \<Rightarrow> j)" by blast
    moreover from ser_value_cache_mono [OF x] have "set c \<subseteq> set c1'" .
    ultimately have "closed_cache h c1 st \<and> set c \<subseteq> set c1 \<and>
        ser_value n h st c1 ((x # xs) ! i) = Some (Inr (r, c2)) \<and>
        js ! i = (case r of None \<Rightarrow> JNull | Some j \<Rightarrow> j)"
      using js Suc by auto
    then show ?thesis by blast
  qed
qed

lemma ser_elems_two:
  "ser_elems n h st c xs = Some (Inr (js, c')) \<Longrightarrow> closed_cache h c st \<Longrightarrow>
   i1 < i2 \<Longrightarrow> i2 < length xs \<Longrightarrow>
     \<exists>cA rA cB cC rC cD. closed_cache h cA st \<and> set c \<subseteq> set cA \<and>
        ser_value n h st cA (xs ! i1) = Some (Inr (rA, cB)) \<and> set cB \<subseteq> set cC \<and>
        ser_value n h st cC (xs ! i2) = Some (Inr (rC, cD)) \<and>
        js ! i2 = (case rC of None \<Rightarrow> JNull | Some j \<Rightarrow> j)"
proof (induction xs arbitrary: c js i1 i2)
  case Nil
  then show ?case by simp
next
  case (Cons x xs)
  from Cons.prems(1) obtain r' c1' js' where
    x: "ser_value n h st c x = Some (Inr (r', c1'))" and
    rest: "ser_elems n h st c1' xs = Some (Inr (js', c'))" and
    js: "js = (case r' of None \<Rightarrow> JNull | Some j \<Rightarrow> j) # js'"
    by (auto simp: and_then_eq_Inr)
  from Cons.prems(3) obtain i2' where i2: "i2 = Suc i2'" by (cases i2) auto
  with Cons.prems(4) have i2': "i2' < length xs" by simp
  show ?case
  proof (cases i1)
    case 0
    from ser_elems_nth [OF rest i2'] obtain c1 r c2 where
      c1: "set c1' \<subseteq> set c1" and x2: "ser_value n h st c1 (xs ! i2') = Some (Inr (r, c2))"
      and r: "js' ! i2' = (case r of None \<Rightarrow> JNull | Some j \<Rightarrow> j)" by blast
    have "closed_cache h c st \<and> set c \<subseteq> set c \<and>
        ser_value n h st c ((x # xs) ! i1) = Some (Inr (r', c1')) \<and> set c1' \<subseteq> set c1 \<and>
        ser_value n h st c1 ((x # xs) ! i2) = Some (Inr (r, c2)) \<and>
        js ! i2 = (case r of None \<Rightarrow> JNull | Some j \<Rightarrow> j)"
      using Cons.prems(2) x c1 x2 r js 0 i2 by simp
    then show ?thesis by blast
  next
    case (Suc i1')
    with Cons.prems(3) i2 have lt: "i1' < i2'" by simp
    from ser_value_closed [OF x Cons.prems(2)] have cl1: "closed_cache h c1' st" .
    from Cons.IH [OF rest cl1 lt i2'] obtain cA rA cB cC rC cD where
      "closed_cache h cA st" "set c1' \<subseteq> set cA"
      "ser_value n h st cA (xs ! i1') = Some (Inr (rA, cB))" "set cB \<subseteq> set cC"
      "ser_value n h st cC (xs ! i2') = Some (Inr (rC, cD))"
      "js' ! i2' = (case rC of None \<Rightarrow> JNull | Some j \<Rightarrow> j)" by blast
    moreover from ser_value_cache_mono [OF x] have "set c \<subseteq> set c1'" .
    ultimately have "closed_cache h cA st \<and> set c \<subseteq> set cA \<and>
        ser_value n h st cA ((x # xs) ! i1) = Some (Inr (rA, cB)) \<and> set cB \<subseteq> set cC \<and>
        ser_value n h st cC ((x # xs) ! i2) = Some (Inr (rC, cD)) \<and>
        js ! i2 = (case rC of None \<Rightarrow> JNull | Some j \<Rightarrow> j)"
      using js Suc i2 by auto
    then show ?thesis by blast
  qed
qed

lemma child_serialised_closed:
  assumes ch: "child h (Ref b) s = Some x"
    and xr: "x = Ref d"
    and fresh: "b \<notin> set c"
    and cl: "closed_cache h c st"
    and ser: "ser_value n h st c (Ref b) = Some (Inr (Some j, c'))"
  shows "\<exists>m c1 jx c2. closed_cache h c1 (b # st) \<and> set (c @ [b]) \<subseteq> set c1 \<and>
           ser_value m h (b # st) c1 x = Some (Inr (Some jx, c2)) \<and> jchild j s = Some jx"
proof -
  from ser obtain m where n: "n = Suc m" by (cases n) auto
  from ser n fresh have nst: "b \<notin> set st"
    by (auto simp: replacer_def split: if_splits)
  from closed_cache_push [OF cl] have cl': "closed_cache h (c @ [b]) (b # st)" .
  show ?thesis
  proof (cases "heap_get h b")
    case (Obj ps)
    with ch obtain k where s: "s = Key k" and mp: "map_of ps k = Some x"
      by (auto simp: child_def split: step.splits)
    from ser n fresh nst Obj obtain ms where
      pr: "ser_props m h (b # st) (c @ [b]) ps = Some (Inr (ms, c'))" and j: "j = JObj ms"
      by (auto simp: replacer_def and_then_eq_Inr)
    from ser_props_member_closed [OF pr cl' mp] obtain c1 r c2 where
      cl1: "closed_cache h c1 (b # st)" and
      c1: "set (c @ [b]) \<subseteq> set c1" and x: "ser_value m h (b # st) c1 x = Some (Inr (r, c2))"
      and r: "\<forall>jx. r = Some jx \<longrightarrow> map_of ms k = Some jx" by blast
    from ser_value_ref_pushed [OF x [unfolded xr]] obtain jx where "r = Some jx" by blast
    with r x c1 cl1 s j have "closed_cache h c1 (b # st) \<and> set (c @ [b]) \<subseteq> set c1 \<and>
           ser_value m h (b # st) c1 x = Some (Inr (Some jx, c2)) \<and> jchild j s = Some jx"
      by (simp add: jchild_def)
    then show ?thesis by blast
  next
    case (Arr xs)
    with ch obtain i where s: "s = Index i" and i: "i < length xs" and xi: "xs ! i = x"
      by (auto simp: child_def split: step.splits if_splits)
    from ser n fresh nst Arr obtain js where
      el: "ser_elems m h (b # st) (c @ [b]) xs = Some (Inr (js, c'))" and j: "j = JArr js"
      by (auto simp: replacer_def and_then_eq_Inr)
    from ser_elems_length [OF el] have len: "length js = length xs" .
    from ser_elems_nth_closed [OF el cl' i] xi obtain c1 r c2 where
      cl1: "closed_cache h c1 (b # st)" and
      c1: "set (c @ [b]) \<subseteq> set c1" and x: "ser_value m h (b # st) c1 x = Some (Inr (r, c2))"
      and r: "js ! i = (case r of None \<Rightarrow> JNull | Some j \<Rightarrow> j)" by blast
    from ser_value_ref_pushed [OF x [unfolded xr]] obtain jx where "r = Some jx" by blast
    with r x c1 cl1 s j len i have "closed_cache h c1 (b # st) \<and> set (c @ [b]) \<subseteq> set c1 \<and>
           ser_value m h (b # st) c1 x = Some (Inr (Some jx, c2)) \<and> jchild j s = Some jx"
      by (simp add: jchild_def)
    then show ?thesis by blast
  qed
qed

lemma children_in_order:
  assumes ch1: "child h (Ref b) s1 = Some x1"
    and ch2: "child h (Ref b) s2 = Some x2"
    and xr: "x2 = Ref d"
    and ord: "step_before h (Ref b) s1 s2"
    and fresh: "b \<notin> set c"
    and cl: "closed_cache h c st"
    and ser: "ser_value n h st c (Ref b) = Some (Inr (Some j, c'))"
  shows "\<exists>m cA rA cB cC jx cD. closed_cache h cA (b # st) \<and>
           ser_value m h (b # st) cA x1 = Some (Inr (rA, cB)) \<and> set cB \<subseteq> set cC \<and>
           ser_value m h (b # st) cC x2 = Some (Inr (Some jx, cD)) \<and> jchild j s2 = Some jx"
proof -
  from ser obtain m where n: "n = Suc m" by (cases n) auto
  from ser n fresh have nst: "b \<notin> set st"
    by (auto simp: replacer_def split: if_splits)
  from closed_cache_push [OF cl] have cl': "closed_cache h (c @ [b]) (b # st)" .
  show ?thesis
  proof (cases "heap_get h b")
    case (Obj ps)
    with ch1 obtain k1 where s1: "s1 = Key k1" and mp1: "map_of ps k1 = Some x1"
      by (auto simp: child_def split: step.splits)
    from Obj ch2 obtain k2 where s2: "s2 = Key k2" and mp2: "map_of ps k2 = Some x2"
      by (auto simp: child_def split: step.splits)
    from ord Obj s1 s2 have pos: "position ps k1 < position ps k2"
      by (simp add: step_before_def)
    from ser n fresh nst Obj obtain ms where
      pr: "ser_props m h (b # st) (c @ [b]) ps = Some (Inr (ms, c'))" and j: "j = JObj ms"
      by (auto simp: replacer_def and_then_eq_Inr)
    from ser_props_two [OF pr cl' mp1 mp2 pos] obtain cA rA cB cC rC cD where
      cA: "closed_cache h cA (b # st)" and
      a: "ser_value m h (b # st) cA x1 = Some (Inr (rA, cB))" and sub: "set cB \<subseteq> set cC" and
      x: "ser_value m h (b # st) cC x2 = Some (Inr (rC, cD))" and
      r: "\<forall>jx. rC = Some jx \<longrightarrow> map_of ms k2 = Some jx" by blast
    from ser_value_ref_pushed [OF x [unfolded xr]] obtain jx where "rC = Some jx" by blast
    with r x cA a sub s2 j have "closed_cache h cA (b # st) \<and>
           ser_value m h (b # st) cA x1 = Some (Inr (rA, cB)) \<and> set cB \<subseteq> set cC \<and>
           ser_value m h (b # st) cC x2 = Some (Inr (Some jx, cD)) \<and> jchild j s2 = Some jx"
      by (simp add: jchild_def)
    then show ?thesis by blast
  next
    case (Arr xs)
    with ch1 obtain i1 where s1: "s1 = Index i1" and i1: "i1 < length xs" and xi1: "xs ! i1 = x1"
      by (auto simp: child_def split: step.splits if_splits)
    from Arr ch2 obtain i2 where s2: "s2 = Index i2" and i2: "i2 < length xs" and xi2: "xs ! i2 = x2"
      by (auto simp: child_def split: step.splits if_splits)
    from ord Arr s1 s2 have lt: "i1 < i2" by (simp add: step_before_def)
    from ser n fresh nst Arr obtain js where
      el: "ser_elems m h (b # st) (c @ [b]) xs = Some (Inr (js, c'))" and j: "j = JArr js"
      by (auto simp: replacer_def and_then_eq_Inr)
    from ser_elems_length [OF el] have len: "length js = length xs" .
    from ser_elems_two [OF el cl' lt i2] xi1 xi2 obtain cA rA cB cC rC cD where
      cA: "closed_cache h cA (b # st)" and
      a: "ser_value m h (b # st) cA x1 = Some (Inr (rA, cB))" and sub: "set cB \<subseteq> set cC" and
      x: "ser_value m h (b # st) cC x2 = Some (Inr (rC, cD))" and
      r: "js ! i2 = (case rC of None \<Rightarrow> JNull | Some j \<Rightarrow> j)" by blast
    from ser_value_ref_pushed [OF x [unfolded xr]] obtain jx where "rC = Some jx" by blast
    with r x cA a sub s2 j len i2 have "closed_cache h cA (b # st) \<and>
           ser_value m h (b # st) cA x1 = Some (Inr (rA, cB)) \<and> set cB \<subseteq> set cC \<and>
           ser_value m h (b # st) cC x2 = Some (Inr (Some jx, cD)) \<and> jchild j s2 = Some jx"
      by (simp add: jchild_def)
    then show ?thesis by blast
  qed
qed

lemma later_path_marked:
  "ser_value n h st c v = Some (Inr (Some j, c')) \<Longrightarrow> closed_cache h c st \<Longrightarrow>
   follow h v p1 = Some (Ref a) \<Longrightarrow> follow h v p2 = Some (Ref a) \<Longrightarrow>
   distinct (visits h v p1) \<Longrightarrow> set (visits h v p1) \<inter> set st = {} \<Longrightarrow>
   path_before h v p1 p2 \<Longrightarrow>
   \<exists>k\<le>length p2. jfollow j (take k p2) = Some (JStr circular_marker)"
proof (induction p1 arbitrary: v p2 n st c j c')
  case Nil
  from Nil.prems(3) have v: "v = Ref a" by simp
  from Nil.prems(7) have ne: "p2 \<noteq> []" by simp
  have "a \<in> set c \<or> (\<exists>q1 q2. p2 = q1 @ q2 \<and> q2 \<noteq> [] \<and> follow h v q1 = Some (Ref a))"
  proof (intro disjI2 exI conjI)
    show "p2 = [] @ p2" by simp
    show "p2 \<noteq> []" by (rule ne)
    show "follow h v [] = Some (Ref a)" by (simp add: v)
  qed
  from marker_on_path [OF Nil.prems(4) this Nil.prems(1)] show ?case .
next
  case (Cons s1 r1)
  from Cons.prems(7) obtain s2 r2 where p2: "p2 = s2 # r2" by (cases p2) auto
  from Cons.prems(3) obtain b where v: "v = Ref b" using follow_is_ref by blast
  from Cons.prems(3) v obtain x1 where ch1: "child h (Ref b) s1 = Some x1"
    and f1: "follow h x1 r1 = Some (Ref a)"
    by (auto split: option.splits)
  from Cons.prems(4) v p2 obtain x2 where ch2: "child h (Ref b) s2 = Some x2"
    and f2: "follow h x2 r2 = Some (Ref a)"
    by (auto split: option.splits)
  from f1 obtain d1 where x1r: "x1 = Ref d1" using follow_is_ref by blast
  from f2 obtain d2 where x2r: "x2 = Ref d2" using follow_is_ref by blast
  from Cons.prems(1) obtain m where n: "n = Suc m" by (cases n) auto
  from Cons.prems(5) v ch1 have dist: "distinct (visits h x1 r1)" and nb: "b \<notin> set (visits h x1 r1)"
    by simp_all
  from Cons.prems(6) v ch1 have off: "set (visits h x1 r1) \<inter> set st = {}"
    by simp
  from off nb have off': "set (visits h x1 r1) \<inter> set (b # st) = {}" by simp
  show ?case
  proof (cases "b \<in> set c")
    case True
    from Cons.prems(1) [unfolded v n] ser_value_marked [OF True, of m h st]
    have "j = JStr circular_marker" by simp
    then have "jfollow j (take 0 p2) = Some (JStr circular_marker)" by simp
    then show ?thesis by blast
  next
    case False
    show ?thesis
    proof (cases "s1 = s2")
      case True
      with ch1 ch2 have same: "x2 = x1" by simp
      from Cons.prems(7) v p2 True ch1 have before: "path_before h x1 r1 r2" by simp
      from child_serialised_closed [OF ch1 x1r False Cons.prems(2) Cons.prems(1) [unfolded v]]
      obtain m' c1 jx c2 where cl1: "closed_cache h c1 (b # st)"
        and sx: "ser_value m' h (b # st) c1 x1 = Some (Inr (Some jx, c2))"
        and jc: "jchild j s1 = Some jx" by blast
      from Cons.IH [OF sx cl1 f1 f2 [unfolded same] dist off' before]
      obtain k where k: "k \<le> length r2"
        and mk: "jfollow jx (take k r2) = Some (JStr circular_marker)" by blast
      from jc mk True p2 have "jfollow j (take (Suc k) p2) = Some (JStr circular_marker)" by simp
      moreover have "Suc k \<le> length p2" using k p2 by simp
      ultimately show ?thesis by blast
    next
      case diff: False
      with Cons.prems(7) v p2 have ord: "step_before h (Ref b) s1 s2" by simp
      from children_in_order [OF ch1 ch2 x2r ord False Cons.prems(2) Cons.prems(1) [unfolded v]]
      obtain m' cA rA cB cC jx cD where cA: "closed_cache h cA (b # st)"
        and sa: "ser_value m' h (b # st) cA x1 = Some (Inr (rA, cB))"
        and sub: "set cB \<subseteq> set cC"
        and sx: "ser_value m' h (b # st) cC x2 = Some (Inr (Some jx, cD))"
        and jc: "jchild j s2 = Some jx" by blast
      from ser_value_reach [OF sa cA f1 off'] sub have "a \<in> set cC" by blast
      then have "a \<in> set cC \<or> (\<exists>q1 q2. r2 = q1 @ q2 \<and> q2 \<noteq> [] \<and> follow h x2 q1 = Some (Ref a))"
        by simp
      from marker_on_path [OF f2 this sx] obtain k where k: "k \<le> length r2"
        and mk: "jfollow jx (take k r2) = Some (JStr circular_marker)" by blast
      from jc mk p2 have "jfollow j (take (Suc k) p2) = Some (JStr circular_marker)" by simp
      moreover have "Suc k \<le> length p2" using k p2 by simp
      ultimately show ?thesis by blast
    qed
  qed
qed


section \<open>Decoding what the serialisation writes\<close>

lemma hex_value_hex_char: "d < 16 \<Longrightarrow> hex_value (hex_char d) = Some d"
proof -
  assume "d < 16"
  then have "d = 0 \<or> d = 1 \<or> d = 2 \<or> d = 3 \<or> d = 4 \<or> d = 5 \<or> d = 6 \<or> d = 7 \<or> d = 8 \<or>
      d = 9 \<or> d = 10 \<or> d = 11 \<or> d = 12 \<or> d = 13 \<or> d = 14 \<or> d = 15"
    by presburger
  then show ?thesis
    by (elim disjE) (simp_all add: hex_value_def hex_char_def is_digit_def)
qed

lemma parse_chars_escape:
  "parse_chars (escape_char c @ t) = map_option (\<lambda>(s, rest). (c # s, rest)) (parse_chars t)"
proof -
  consider (special) "c \<in> {CHR 0x22, CHR 0x5C, CHR 0x08, CHR 0x0C, CHR 0x0A, CHR 0x0D, CHR 0x09}"
    | (control) "c \<notin> {CHR 0x22, CHR 0x5C, CHR 0x08, CHR 0x0C, CHR 0x0A, CHR 0x0D, CHR 0x09}"
        "(of_char c :: nat) < 32"
    | (plain) "c \<notin> {CHR 0x22, CHR 0x5C, CHR 0x08, CHR 0x0C, CHR 0x0A, CHR 0x0D, CHR 0x09}"
        "\<not> (of_char c :: nat) < 32"
    by blast
  then show ?thesis
  proof cases
    case special
    then show ?thesis by (auto simp: escape_char_def unescape_def)
  next
    case plain
    then show ?thesis by (auto simp: escape_char_def)
  next
    case control
    let ?n = "of_char c :: nat"
    have d3: "hex_value (hex_char (?n div 16)) = Some (?n div 16)"
      using control(2) by (intro hex_value_hex_char) simp
    have d4: "hex_value (hex_char (?n mod 16)) = Some (?n mod 16)"
      by (intro hex_value_hex_char) simp
    have z: "hex_value (CHR ''0'') = Some 0" by (simp add: hex_value_def is_digit_def)
    have same: "char_of (16 * (?n div 16) + ?n mod 16) = c" by simp
    have esc: "escape_char c = [CHR 0x5C, CHR ''u'', CHR ''0'', CHR ''0'', hex_char (?n div 16), hex_char (?n mod 16)]"
      using control by (simp add: escape_char_def)
    show ?thesis
      unfolding esc by (simp add: d3 d4 z same del: mult_div_mod_eq div_mult_mod_eq)
  qed
qed

lemma parse_chars_quote:
  "parse_chars (concat (map escape_char s) @ CHR 0x22 # rest) = Some (s, rest)"
  by (induction s) (simp_all add: parse_chars_escape)

lemma parse_quote: "\<exists>t. quote s @ rest = CHR 0x22 # t \<and> parse_chars t = Some (s, rest)"
  by (simp add: quote_def parse_chars_quote)

lemma digit_char_props:
  "d < 10 \<Longrightarrow> is_digit (digit_char d) \<and> digit_value (digit_char d) = d \<and>
     (digit_char d = CHR ''0'' \<longrightarrow> d = 0) \<and> digit_char d \<noteq> CHR ''-''"
proof -
  assume "d < 10"
  then have "d = 0 \<or> d = 1 \<or> d = 2 \<or> d = 3 \<or> d = 4 \<or> d = 5 \<or> d = 6 \<or> d = 7 \<or> d = 8 \<or> d = 9"
    by presburger
  then show ?thesis
    by (elim disjE) (simp_all add: digit_char_def is_digit_def digit_value_def)
qed

lemma nat_text_props:
  "nat_text n \<noteq> [] \<and> list_all is_digit (nat_text n) \<and> digits_value (nat_text n) = n \<and>
     (hd (nat_text n) = CHR ''0'' \<longrightarrow> n = 0 \<and> length (nat_text n) = 1)"
proof (induction n rule: nat_text.induct)
  case (1 n)
  show ?case
  proof (cases "n < 10")
    case True
    with digit_char_props [of n] show ?thesis
      by (subst (1 2 3 4 5) nat_text.simps) (simp add: digits_value_def)
  next
    case False
    from "1.IH" [OF False] have ne: "nat_text (n div 10) \<noteq> []"
      and ds: "list_all is_digit (nat_text (n div 10))"
      and dv: "digits_value (nat_text (n div 10)) = n div 10"
      and z: "hd (nat_text (n div 10)) = CHR ''0'' \<longrightarrow> n div 10 = 0" by simp_all
    have d: "n mod 10 < 10" by simp
    have unf: "nat_text n = nat_text (n div 10) @ [digit_char (n mod 10)]"
      using False by (subst nat_text.simps) simp
    from False have "n div 10 \<noteq> 0" by auto
    with z ne have "hd (nat_text n) \<noteq> CHR ''0''" by (simp add: unf)
    moreover have "digits_value (nat_text n) = n"
      using dv digit_char_props [OF d] by (simp add: unf digits_value_def)
    moreover have "list_all is_digit (nat_text n)"
      using ds digit_char_props [OF d] by (simp add: unf)
    ultimately show ?thesis by (simp add: unf)
  qed
qed

lemma is_digit_not_minus [simp]: "\<not> is_digit (CHR ''-'')"
  by (simp add: is_digit_def)

lemma parse_integer_digits:
  assumes "ds \<noteq> []" and "list_all is_digit ds"
    and "\<not> (hd ds = CHR ''0'' \<and> 1 < length ds)"
    and "rest = [] \<or> \<not> is_digit (hd rest)"
  shows "parse_integer (ds @ rest) = Some (int (digits_value ds), rest)"
    and "parse_integer (CHR ''-'' # ds @ rest) = Some (- int (digits_value ds), rest)"
proof -
  from assms(2) have "\<forall>x\<in>set ds. is_digit x" by (simp add: list_all_iff)
  moreover have "takeWhile is_digit rest = []" "dropWhile is_digit rest = rest"
    using assms(4) by (cases rest; auto)+
  ultimately have split: "takeWhile is_digit (ds @ rest) = ds" "dropWhile is_digit (ds @ rest) = rest"
    by (simp_all add: takeWhile_append dropWhile_append)
  from assms(1,2) have "hd (ds @ rest) \<noteq> CHR ''-''" by (cases ds) auto
  with assms(1,3) split show "parse_integer (ds @ rest) = Some (int (digits_value ds), rest)"
    by (simp add: parse_integer_def Let_def)
  from assms(1,3) split show "parse_integer (CHR ''-'' # ds @ rest) = Some (- int (digits_value ds), rest)"
    by (simp add: parse_integer_def Let_def)
qed

lemma parse_integer_int_text:
  assumes "rest = [] \<or> \<not> is_digit (hd rest)"
  shows "parse_integer (int_text i @ rest) = Some (i, rest)"
proof -
  have ok: "nat_text n \<noteq> []" "list_all is_digit (nat_text n)"
    "\<not> (hd (nat_text n) = CHR ''0'' \<and> 1 < length (nat_text n))"
    "digits_value (nat_text n) = n" for n
    using nat_text_props [of n] by auto
  show ?thesis
  proof (cases "i < 0")
    case True
    from parse_integer_digits(2) [OF ok(1-3) assms, of "nat (- i)"] True
    show ?thesis by (simp add: int_text_def ok(4))
  next
    case False
    from parse_integer_digits(1) [OF ok(1-3) assms, of "nat i"] False
    show ?thesis by (simp add: int_text_def ok(4))
  qed
qed

lemma number_range: "- (2 ^ 53) \<le> sint (n :: number) \<and> sint n < 2 ^ 53"
  using sint_ge [of n] sint_lt [of n] by simp

lemma parse_number_int_text:
  assumes "rest = [] \<or> \<not> is_digit (hd rest)"
  shows "parse_number (int_text (sint n) @ rest) = Some (n, rest)"
  using parse_integer_int_text [OF assms, of "sint n"] number_range [of n]
  by (simp add: parse_number_def)

lemma int_text_head:
  "int_text i \<noteq> [] \<and> (hd (int_text i) = CHR ''-'' \<or> is_digit (hd (int_text i)))"
  using nat_text_props [of "nat i"] nat_text_props [of "nat (- i)"]
  by (cases "nat_text (nat i)"; cases "nat_text (nat (- i))") (auto simp: int_text_def)

lemma value_start_not_ws: "value_start c \<Longrightarrow> \<not> is_json_ws c \<and> c \<noteq> CHR '']'' \<and> c \<noteq> CHR ''}''"
  by (auto simp: value_start_def is_json_ws_def)

lemma json_text_start: "\<exists>c t. json_text j = c # t \<and> value_start c"
proof (cases j)
  case (JNum i)
  from int_text_head [of "sint i"] obtain c t where "int_text (sint i) = c # t" "c = CHR ''-'' \<or> is_digit c"
    by (cases "int_text (sint i)") auto
  with JNum show ?thesis by (auto simp: value_start_def is_digit_def)
qed (auto simp: value_start_def quote_def)

lemma not_ws_simps [simp]:
  "\<not> is_json_ws (CHR '','')" "\<not> is_json_ws (CHR '']'')" "\<not> is_json_ws (CHR ''}'')"
  "\<not> is_json_ws (CHR '':'')" "\<not> is_json_ws (CHR 0x22)" "\<not> is_json_ws (CHR ''['')"
  "\<not> is_json_ws (CHR ''{'')" "\<not> is_json_ws (CHR ''n'')" "\<not> is_json_ws (CHR ''t'')"
  "\<not> is_json_ws (CHR ''f'')"
  by (simp_all add: is_json_ws_def)

lemma not_digit_simps [simp]:
  "\<not> is_digit (CHR '','')" "\<not> is_digit (CHR '']'')" "\<not> is_digit (CHR ''}'')"
  by (simp_all add: is_digit_def)

lemma parse_value_literals:
  "parse_value (Suc n) (''null'' @ rest) = Some (JNull, rest)"
  "parse_value (Suc n) (''true'' @ rest) = Some (JBool True, rest)"
  "parse_value (Suc n) (''false'' @ rest) = Some (JBool False, rest)"
  by (simp_all add: parse_value.simps)

lemma parse_value_string:
  "parse_value (Suc n) (quote s @ rest) = Some (JStr s, rest)"
  using parse_quote [of s rest] by (auto simp: parse_value.simps)

lemma parse_value_number:
  assumes "rest = [] \<or> \<not> is_digit (hd rest)"
  shows "parse_value (Suc n) (int_text (sint i) @ rest) = Some (JNum i, rest)"
proof -
  from int_text_head [of "sint i"] obtain c t where ct: "int_text (sint i) = c # t"
    and c: "c = CHR ''-'' \<or> is_digit c"
    by (cases "int_text (sint i)") auto
  from c have nws: "\<not> is_json_ws c" and nq: "c \<noteq> CHR 0x22" "c \<noteq> CHR ''[''" "c \<noteq> CHR ''{''"
    "c \<noteq> CHR ''n''" "c \<noteq> CHR ''t''" "c \<noteq> CHR ''f''"
    by (auto simp: is_json_ws_def is_digit_def)
  from parse_number_int_text [OF assms, of i] have pn: "parse_number (c # t @ rest) = Some (i, rest)"
    by (simp add: ct)
  from nq have lit: "take 4 (c # t @ rest) \<noteq> ''null''" "take 4 (c # t @ rest) \<noteq> ''true''"
    "take 5 (c # t @ rest) \<noteq> ''false''"
    by (auto simp: take_Cons')
  show ?thesis
    unfolding ct using nws nq lit pn by (simp add: parse_value.simps del: take_Cons_numeral)
qed

lemma parse_elems_join:
  assumes elems: "\<And>j n rest. j \<in> set js \<Longrightarrow> length (json_text j @ rest) \<le> n \<Longrightarrow>
      rest = [] \<or> \<not> is_digit (hd rest) \<Longrightarrow> parse_value n (json_text j @ rest) = Some (j, rest)"
    and "js \<noteq> []"
    and "length (join_with '','' (map json_text js) @ CHR '']'' # rest) \<le> n"
  shows "parse_elems n (join_with '','' (map json_text js) @ CHR '']'' # rest) = Some (js, rest)"
  using assms
proof (induction js arbitrary: n)
  case Nil
  then show ?case by simp
next
  case (Cons j js)
  show ?case
  proof (cases js)
    case Nil
    from Cons.prems(3) Nil have len: "length (json_text j @ CHR '']'' # rest) \<le> n" by simp
    from Cons.prems(1) [OF _ len] have "parse_value n (json_text j @ CHR '']'' # rest) = Some (j, CHR '']'' # rest)"
      by simp
    with Nil show ?thesis by (simp add: parse_elems.simps)
  next
    case (Cons j2 js2)
    let ?tail = "join_with '','' (map json_text js) @ CHR '']'' # rest"
    have shape: "join_with '','' (map json_text (j # js)) @ CHR '']'' # rest =
        json_text j @ CHR '','' # ?tail"
      using Cons by simp
    from json_text_start [of j] obtain c t where jt: "json_text j = c # t" by blast
    from Cons.prems(3) have len: "length (json_text j @ CHR '','' # ?tail) \<le> n"
      by (simp only: shape)
    from Cons.prems(1) [OF _ len] have pv: "parse_value n (json_text j @ CHR '','' # ?tail) = Some (j, CHR '','' # ?tail)"
      by simp
    from len jt obtain m where n: "n = Suc m" and lm: "length ?tail \<le> m"
      by (cases n) auto
    have "parse_elems m ?tail = Some (js, rest)"
    proof (rule Cons.IH)
      show "js \<noteq> []" using Cons by simp
      show "length ?tail \<le> m" by (rule lm)
    next
      fix j' n' rest'
      assume "j' \<in> set js" "length (json_text j' @ rest') \<le> n'" "rest' = [] \<or> \<not> is_digit (hd rest')"
      then show "parse_value n' (json_text j' @ rest') = Some (j', rest')"
        using Cons.prems(1) by simp
    qed
    with pv n show ?thesis
      by (subst shape, subst parse_elems.simps) simp
  qed
qed

lemma parse_members_join:
  assumes membs: "\<And>k j n rest. (k, j) \<in> set ms \<Longrightarrow> length (json_text j @ rest) \<le> n \<Longrightarrow>
      rest = [] \<or> \<not> is_digit (hd rest) \<Longrightarrow> parse_value n (json_text j @ rest) = Some (j, rest)"
    and "ms \<noteq> []"
    and "length (join_with '','' (map (\<lambda>(k, j). quote k @ '':'' @ json_text j) ms) @ CHR ''}'' # rest) \<le> n"
  shows "parse_members n (join_with '','' (map (\<lambda>(k, j). quote k @ '':'' @ json_text j) ms) @ CHR ''}'' # rest) =
           Some (ms, rest)"
  using assms
proof (induction ms arbitrary: n)
  case Nil
  then show ?case by simp
next
  case (Cons kj ms)
  obtain k j where kj: "kj = (k, j)" by (cases kj)
  from parse_quote [of k] have pq: "\<And>r. \<exists>t. quote k @ r = CHR 0x22 # t \<and> parse_chars t = Some (k, r)" .
  show ?case
  proof (cases ms)
    case Nil
    let ?after = "CHR ''}'' # rest"
    from pq [of "CHR '':'' # json_text j @ ?after"] obtain t where
      q: "quote k @ CHR '':'' # json_text j @ ?after = CHR 0x22 # t" and
      pc: "parse_chars t = Some (k, CHR '':'' # json_text j @ ?after)" by blast
    from Cons.prems(3) Nil kj have "length (quote k @ CHR '':'' # json_text j @ ?after) \<le> n" by simp
    then have len: "length (json_text j @ ?after) \<le> n" by simp
    have pv: "parse_value n (json_text j @ ?after) = Some (j, ?after)"
      using Cons.prems(1) [of k j "?after" n] len kj by simp
    have "parse_members n (quote k @ CHR '':'' # json_text j @ ?after) = Some ([(k, j)], rest)"
      unfolding q by (subst parse_members.simps) (simp add: pc pv)
    with Nil kj show ?thesis by simp
  next
    case (Cons kj2 ms2)
    define tail where
      "tail = join_with '','' (map (\<lambda>(k, j). quote k @ '':'' @ json_text j) ms) @ CHR ''}'' # rest"
    let ?after = "CHR '','' # tail"
    have shape: "join_with '','' (map (\<lambda>(k, j). quote k @ '':'' @ json_text j) (kj # ms)) @ CHR ''}'' # rest =
        quote k @ CHR '':'' # json_text j @ ?after"
      using Cons kj by (simp add: tail_def)
    from pq [of "CHR '':'' # json_text j @ ?after"] obtain t where
      q: "quote k @ CHR '':'' # json_text j @ ?after = CHR 0x22 # t" and
      pc: "parse_chars t = Some (k, CHR '':'' # json_text j @ ?after)" by blast
    from Cons.prems(3) have "length (quote k @ CHR '':'' # json_text j @ ?after) \<le> n"
      by (simp only: shape)
    then have len: "length (json_text j @ ?after) \<le> n" by simp
    have pv: "parse_value n (json_text j @ ?after) = Some (j, ?after)"
      using Cons.prems(1) [of k j "?after" n] len kj by simp
    from json_text_start [of j] obtain c u where jt: "json_text j = c # u" by blast
    from len jt obtain m where n: "n = Suc m" and lm: "length tail \<le> m"
      by (cases n) auto
    have "parse_members m tail = Some (ms, rest)"
      unfolding tail_def
    proof (rule Cons.IH)
      show "ms \<noteq> []" using Cons by simp
      show "length (join_with '','' (map (\<lambda>(k, j). quote k @ '':'' @ json_text j) ms) @ CHR ''}'' # rest) \<le> m"
        using lm by (simp only: tail_def)
    next
      fix k' j' n' rest'
      assume "(k', j') \<in> set ms" "length (json_text j' @ rest') \<le> n'" "rest' = [] \<or> \<not> is_digit (hd rest')"
      then show "parse_value n' (json_text j' @ rest') = Some (j', rest')"
        using Cons.prems(1) [of k' j' rest' n'] by simp
    qed
    then have "parse_members n (quote k @ CHR '':'' # json_text j @ ?after) = Some ((k, j) # ms, rest)"
      unfolding q n by (subst parse_members.simps) (simp add: pc pv [unfolded n])
    then show ?thesis unfolding shape [symmetric] kj .
  qed
qed

lemma join_start:
  assumes "ts \<noteq> []" and "\<And>t. t \<in> set ts \<Longrightarrow> \<exists>c u. t = c # u \<and> P c"
  shows "\<exists>c u. join_with sep ts @ rest = c # u \<and> P c"
proof (cases ts)
  case Nil
  with assms show ?thesis by simp
next
  case (Cons t ts')
  with assms(2) [of t] obtain c u where "t = c # u" "P c" by auto
  with Cons show ?thesis by (cases ts') auto
qed

lemma parse_value_json_text:
  "length (json_text j @ rest) \<le> n \<Longrightarrow> rest = [] \<or> \<not> is_digit (hd rest) \<Longrightarrow>
     parse_value n (json_text j @ rest) = Some (j, rest)"
proof (induction j arbitrary: n rest)
  case JNull
  then obtain m where "n = Suc m" by (cases n) auto
  then show ?case using parse_value_literals(1) [of m rest] by simp
next
  case (JBool b)
  then obtain m where "n = Suc m" by (cases n; cases b) auto
  then show ?case
    using parse_value_literals(2) [of m rest] parse_value_literals(3) [of m rest] by (cases b) simp_all
next
  case (JNum i)
  from int_text_head [of "sint i"] JNum.prems(1) obtain m where "n = Suc m"
    by (cases n; cases "int_text (sint i)") auto
  then show ?case using parse_value_number [OF JNum.prems(2), of m i] by simp
next
  case (JStr s)
  then obtain m where "n = Suc m" by (cases n) (auto simp: quote_def)
  then show ?case using parse_value_string [of m s rest] by simp
next
  case (JArr js)
  from JArr.prems(1) obtain m where n: "n = Suc m" by (cases n) auto
  show ?case
  proof (cases "js = []")
    case True
    then show ?thesis by (simp add: n parse_value.simps)
  next
    case False
    define body where "body = join_with '','' (map json_text js) @ CHR '']'' # rest"
    have shape: "json_text (JArr js) @ rest = CHR ''['' # body" by (simp add: body_def)
    from JArr.prems(1) have len: "length body \<le> m" unfolding shape n by simp
    have pe: "parse_elems m body = Some (js, rest)"
      unfolding body_def
    proof (rule parse_elems_join [OF _ False])
      show "length (join_with '','' (map json_text js) @ CHR '']'' # rest) \<le> m"
        using len by (simp only: body_def)
    next
      fix j n' rest'
      assume "j \<in> set js" "length (json_text j @ rest') \<le> n'" "rest' = [] \<or> \<not> is_digit (hd rest')"
      then show "parse_value n' (json_text j @ rest') = Some (j, rest')" by (rule JArr.IH)
    qed
    have "\<exists>c u. join_with '','' (map json_text js) @ CHR '']'' # rest = c # u \<and> value_start c"
      by (rule join_start) (use False json_text_start in auto)
    then obtain c u where b: "body = c # u" and c: "value_start c" by (auto simp: body_def)
    from value_start_not_ws [OF c] have "\<not> is_json_ws c" "c \<noteq> CHR '']''" by simp_all
    then have "parse_value (Suc m) (CHR ''['' # body) = Some (JArr js, rest)"
      using pe b by (subst parse_value.simps) simp
    then show ?thesis by (simp only: shape n)
  qed
next
  case (JObj ms)
  from JObj.prems(1) obtain m where n: "n = Suc m" by (cases n) auto
  show ?case
  proof (cases "ms = []")
    case True
    then show ?thesis by (simp add: n parse_value.simps)
  next
    case False
    define body where
      "body = join_with '','' (map (\<lambda>(k, j). quote k @ '':'' @ json_text j) ms) @ CHR ''}'' # rest"
    have shape: "json_text (JObj ms) @ rest = CHR ''{'' # body" by (simp add: body_def)
    from JObj.prems(1) have len: "length body \<le> m" unfolding shape n by simp
    have pm: "parse_members m body = Some (ms, rest)"
      unfolding body_def
    proof (rule parse_members_join [OF _ False])
      show "length (join_with '','' (map (\<lambda>(k, j). quote k @ '':'' @ json_text j) ms) @ CHR ''}'' # rest) \<le> m"
        using len by (simp only: body_def)
    next
      fix k j n' rest'
      assume "(k, j) \<in> set ms" "length (json_text j @ rest') \<le> n'" "rest' = [] \<or> \<not> is_digit (hd rest')"
      then show "parse_value n' (json_text j @ rest') = Some (j, rest')"
        by (intro JObj.IH [of "(k, j)" j]) auto
    qed
    have "\<exists>c u. join_with '','' (map (\<lambda>(k, j). quote k @ '':'' @ json_text j) ms) @ CHR ''}'' # rest = c # u \<and>
        c = CHR 0x22"
      by (rule join_start) (use False in \<open>auto simp: quote_def\<close>)
    then obtain u where b: "body = CHR 0x22 # u" by (auto simp: body_def)
    have "parse_value (Suc m) (CHR ''{'' # body) = Some (JObj ms, rest)"
      using pm b by (subst parse_value.simps) simp
    then show ?thesis by (simp only: shape n)
  qed
qed

lemma JSON_parse_json_text: "JSON_parse (json_text j) = Some j"
  using parse_value_json_text [of j "[]" "Suc (length (json_text j))"]
  by (simp add: JSON_parse_def)

lemmas json_eval =
  message_json_def toMessage_def example_log_def replacer_def heap_get_def primitive_json_def
  member_def caller_of_def frame_def str_or_undefined_def num_or_undefined_def
  circular_marker_def example_caller_json_def child_def jchild_def

lemma render_json_shared:
  "message_json (Suc (length shared_store)) shared_store (toMessage (example_log fs)) =
     Some (Inr shared_rendering)"
  by (simp add: json_eval shared_store_def shared_rendering_def)

lemma render_json_crossed:
  "message_json (Suc (length crossed_store)) crossed_store (toMessage (example_log fs)) =
     Some (Inr crossed_rendering)"
  by (simp add: json_eval crossed_store_def crossed_rendering_def)

lemma render_json_cyclic:
  "message_json (Suc (length cyclic_store)) cyclic_store (toMessage (example_log fs)) =
     Some (Inr cyclic_rendering)"
  by (simp add: json_eval cyclic_store_def cyclic_rendering_def)

text \<open>
  C6. For every record and store in which \<open>args\<close> or \<open>meta\<close> leads, along some
  path of keys and indices, to an object that lies on a cycle (a non-empty path
  leads from the object back to itself), rendering with \<open>json\<close> returns a text:
  the recursion ends within its bound and neither the platform's
  circular-structure \<open>TypeError\<close> nor a \<open>RangeError\<close> is thrown. In the
  rendered document the cyclic path is cut by the marker: following the path to
  the object and once around the cycle, some prefix of it ends at the string
  \<open>[circular]\<close>.
\<close>

theorem json_cycle_marker:
  assumes "(key, root) = (''args'', args l) \<or> (key, root) = (''meta'', meta l)"
    and "follow h root p = Some (Ref a)"
    and "follow h (Ref a) q = Some (Ref a)"
    and "q \<noteq> []"
  shows "\<exists>j k. render w h l (Template ''json'') = (Inr (Str (json_text j)), w) \<and>
           k \<le> length (p @ q) \<and>
           jfollow j (Key key # take k (p @ q)) = Some (JStr circular_marker)"
proof -
  from message_json_parts [of h "toMessage l"] obtain jargs c1 jmeta c2 where
    sa: "ser_value (Suc (length h)) h [] [] (args l) = Some (Inr (jargs, c1))" and
    sm: "ser_value (Suc (length h)) h [] c1 (meta l) = Some (Inr (jmeta, c2))" and
    mj: "message_json (Suc (length h)) h (toMessage l) =
       Some (Inr (JObj
         (member ''args'' jargs
          @ member ''caller'' (Some (case caller l of None \<Rightarrow> JNull | Some c \<Rightarrow> caller_json c))
          @ member ''date'' (Some (JNum (date l)))
          @ member ''level'' (Some (JStr (level_text (level l))))
          @ member ''meta'' jmeta
          @ member ''name'' (map_option JStr (name l)))))"
    by auto
  let ?J = "JObj
         (member ''args'' jargs
          @ member ''caller'' (Some (case caller l of None \<Rightarrow> JNull | Some c \<Rightarrow> caller_json c))
          @ member ''date'' (Some (JNum (date l)))
          @ member ''level'' (Some (JStr (level_text (level l))))
          @ member ''meta'' jmeta
          @ member ''name'' (map_option JStr (name l)))"
  from assms(2) obtain b where root: "root = Ref b" using follow_is_ref by blast
  have path: "follow h root (p @ q) = Some (Ref a)"
    by (simp add: follow_append assms(2,3))
  have cyc: "a \<in> set c \<or> (\<exists>p1 p2. p @ q = p1 @ p2 \<and> p2 \<noteq> [] \<and> follow h root p1 = Some (Ref a))"
    for c :: "addr list"
    using assms(2,4) by blast
  have "\<exists>c c' jr. ser_value (Suc (length h)) h [] c root = Some (Inr (Some jr, c')) \<and>
          jchild ?J (Key key) = Some jr"
    using assms(1)
  proof
    assume k: "(key, root) = (''args'', args l)"
    with sa root ser_value_ref_pushed [of "Suc (length h)" h "[]" "[]" b jargs c1]
    obtain jr where "jargs = Some jr" by auto
    with sa k show ?thesis by (auto simp: jchild_def member_def simp del: ser_value.simps)
  next
    assume k: "(key, root) = (''meta'', meta l)"
    with sm root ser_value_ref_pushed [of "Suc (length h)" h "[]" c1 b jmeta c2]
    obtain jr where "jmeta = Some jr" by auto
    with sm k show ?thesis
      by (auto simp: jchild_def member_def simp del: ser_value.simps split: option.splits)
  qed
  then obtain c c' jr where sr: "ser_value (Suc (length h)) h [] c root = Some (Inr (Some jr, c'))"
    and jc: "jchild ?J (Key key) = Some jr" by blast
  from marker_on_path [OF path cyc sr] obtain k where k: "k \<le> length (p @ q)"
    and mk: "jfollow jr (take k (p @ q)) = Some (JStr circular_marker)" by blast
  from jc mk have "jfollow ?J (Key key # take k (p @ q)) = Some (JStr circular_marker)" by simp
  with render_json [OF mj, of w] k show ?thesis by blast
qed

theorem json_cycle_marker_witness:
  "follow cyclic_store (meta (example_log [])) [] = Some (Ref 0)
   \<and> follow cyclic_store (Ref 0) [Key ''self''] = Some (Ref 0)
   \<and> render (example_world []) cyclic_store (example_log []) (Template ''json'') =
        (Inr (Str (json_text cyclic_rendering)), example_world [])
   \<and> jfollow cyclic_rendering [Key ''meta'', Key ''self''] = Some (JStr circular_marker)
   \<and> (\<exists>j k. render (example_world []) cyclic_store (example_log []) (Template ''json'') =
               (Inr (Str (json_text j)), example_world []) \<and>
             k \<le> length ([] @ [Key ''self'']) \<and>
             jfollow j (Key ''meta'' # take k ([] @ [Key ''self''])) = Some (JStr circular_marker))"
proof -
  have r: "(''meta'', Ref 0) = (''args'', args (example_log [])) \<or>
           (''meta'', Ref 0) = (''meta'', meta (example_log []))"
    by (simp add: example_log_def)
  have p: "follow cyclic_store (Ref 0) [] = Some (Ref 0)" by simp
  have q: "follow cyclic_store (Ref 0) [Key ''self''] = Some (Ref 0)"
    by (simp add: child_def heap_get_def cyclic_store_def)
  have ne: "[Key ''self''] \<noteq> []" by simp
  have m: "meta (example_log []) = Ref 0" by (simp add: example_log_def)
  have out: "render (example_world []) cyclic_store (example_log []) (Template ''json'') =
        (Inr (Str (json_text cyclic_rendering)), example_world [])"
    by (rule render_json [OF render_json_cyclic])
  have mk: "jfollow cyclic_rendering [Key ''meta'', Key ''self''] = Some (JStr circular_marker)"
    by (simp add: cyclic_rendering_def jchild_def circular_marker_def)
  from json_cycle_marker [OF r p q ne, of "example_world []"] p q m out mk
  show ?thesis by simp
qed

text \<open>
  C7, as stated, fails: acyclic data with a shared object does not survive the
  rendering. In the second store \<open>meta\<close> is \<open>{a: o, b: o}\<close> with \<open>o = {k: 1}\<close>; the
  field \<open>b\<close> of the record's \<open>meta\<close> is the object \<open>{k: 1}\<close>, but in the rendered
  document \<open>meta.b\<close> is the string \<open>[circular]\<close>.
\<close>

theorem json_shared_counterexample:
  "render (example_world []) shared_store (example_log []) (Template ''json'') =
     (Inr (Str (json_text shared_rendering)), example_world [])
   \<and> JSON_parse (json_text shared_rendering) = Some shared_rendering
   \<and> jfollow shared_rendering [Key ''meta'', Key ''b''] = Some (JStr ''[circular]'')
   \<and> follow shared_store (meta (example_log [])) [Key ''b''] = Some (Ref 2)
   \<and> spec_document 2 shared_store [] (Ref 2) = Some (Some (JObj [(''k'', JNum 1)]), [2])"
proof -
  have "render (example_world []) shared_store (example_log []) (Template ''json'') =
     (Inr (Str (json_text shared_rendering)), example_world [])"
    by (rule render_json [OF render_json_shared])
  moreover have "JSON_parse (json_text shared_rendering) = Some shared_rendering"
    by (rule JSON_parse_json_text)
  moreover have "jfollow shared_rendering [Key ''meta'', Key ''b''] = Some (JStr ''[circular]'')"
    by (simp add: shared_rendering_def jchild_def)
  moreover have "follow shared_store (meta (example_log [])) [Key ''b''] = Some (Ref 2)"
    by (simp add: example_log_def child_def heap_get_def shared_store_def)
  moreover have "spec_document 2 shared_store [] (Ref 2) = Some (Some (JObj [(''k'', JNum 1)]), [2])"
    by (simp add: heap_get_def shared_store_def primitive_json_def member_def numeral_2_eq_2)
  ultimately show ?thesis by simp
qed

text \<open>
  C7, amended. For every record with the format \<open>json\<close> whose \<open>args\<close> and \<open>meta\<close>
  are, taken together, a tree of plain JSON data (no object is reached twice,
  neither by a cycle nor by sharing, and no array holds \<open>undefined\<close>), rendering
  returns a valid JSON text: it decodes, and in the decoded document the members
  \<open>args\<close> and \<open>meta\<close> are the documents that the record's \<open>args\<close> and \<open>meta\<close>
  denote, and the members \<open>date\<close>, \<open>level\<close> and \<open>name\<close> are the record's date,
  level name and name (\<open>name\<close> being left out when the record has none).
\<close>

theorem json_tree_round_trip:
  assumes "spec_document n h [] (args l) = Some (A, seen1)"
    and "spec_document n' h seen1 (meta l) = Some (M, seen2)"
  shows "\<exists>out j. render w h l (Template ''json'') = (Inr (Str out), w) \<and>
           JSON_parse out = Some j \<and>
           jchild j (Key ''args'') = A \<and>
           jchild j (Key ''meta'') = M \<and>
           jchild j (Key ''date'') = Some (JNum (date l)) \<and>
           jchild j (Key ''level'') = Some (JStr (level_text (level l))) \<and>
           jchild j (Key ''name'') = map_option JStr (name l)"
proof -
  from message_json_parts [of h "toMessage l"] obtain jargs c1 jmeta c2 where
    sa: "ser_value (Suc (length h)) h [] [] (args l) = Some (Inr (jargs, c1))" and
    sm: "ser_value (Suc (length h)) h [] c1 (meta l) = Some (Inr (jmeta, c2))" and
    mj: "message_json (Suc (length h)) h (toMessage l) =
       Some (Inr (JObj
         (member ''args'' jargs
          @ member ''caller'' (Some (case caller l of None \<Rightarrow> JNull | Some c \<Rightarrow> caller_json c))
          @ member ''date'' (Some (JNum (date l)))
          @ member ''level'' (Some (JStr (level_text (level l))))
          @ member ''meta'' jmeta
          @ member ''name'' (map_option JStr (name l)))))"
    by auto
  from spec_document_ser(1) assms(1)
  have "ser_value n h [] [] (args l) = Some (Inr (A, seen1))" by simp
  from ser_value_fuel_indep [OF this sa] have a: "jargs = A" "c1 = seen1" by simp_all
  from spec_document_ser(1) assms(2)
  have "ser_value n' h [] seen1 (meta l) = Some (Inr (M, seen2))" by simp
  from ser_value_fuel_indep [OF this sm [unfolded a]] have m: "jmeta = M" by simp
  let ?J = "JObj
         (member ''args'' A
          @ member ''caller'' (Some (case caller l of None \<Rightarrow> JNull | Some c \<Rightarrow> caller_json c))
          @ member ''date'' (Some (JNum (date l)))
          @ member ''level'' (Some (JStr (level_text (level l))))
          @ member ''meta'' M
          @ member ''name'' (map_option JStr (name l)))"
  from render_json [OF mj, of w] a m
  have "render w h l (Template ''json'') = (Inr (Str (json_text ?J)), w)" by simp
  moreover have "JSON_parse (json_text ?J) = Some ?J" by (rule JSON_parse_json_text)
  moreover have "jchild ?J (Key ''args'') = A" by (rule jchild_message)
  moreover have "jchild ?J (Key ''meta'') = M" by (rule jchild_message)
  moreover have "jchild ?J (Key ''date'') = Some (JNum (date l))" by (rule jchild_message)
  moreover have "jchild ?J (Key ''level'') = Some (JStr (level_text (level l)))" by (rule jchild_message)
  moreover have "jchild ?J (Key ''name'') = map_option JStr (name l)" by (rule jchild_message)
  ultimately show ?thesis by blast
qed

theorem json_tree_round_trip_witness:
  "spec_document 2 plain_store [] (args (example_log [])) =
     Some (Some (JArr [JStr ''started'', JNum 3]), [1])
   \<and> spec_document 2 plain_store [1] (meta (example_log [])) =
     Some (Some (JObj [(''user'', JStr ''ann'')]), [1, 0])
   \<and> (\<exists>out j. render (example_world []) plain_store (example_log []) (Template ''json'') =
             (Inr (Str out), example_world []) \<and>
           JSON_parse out = Some j \<and>
           jchild j (Key ''args'') = Some (JArr [JStr ''started'', JNum 3]) \<and>
           jchild j (Key ''meta'') = Some (JObj [(''user'', JStr ''ann'')]) \<and>
           jchild j (Key ''date'') = Some (JNum 1700) \<and>
           jchild j (Key ''level'') = Some (JStr ''info'') \<and>
           jchild j (Key ''name'') = Some (JStr ''db''))"
proof -
  have a: "spec_document 2 plain_store [] (args (example_log [])) =
     Some (Some (JArr [JStr ''started'', JNum 3]), [1])"
    by (simp add: example_log_def heap_get_def plain_store_def primitive_json_def numeral_2_eq_2)
  have m: "spec_document 2 plain_store [1] (meta (example_log [])) =
     Some (Some (JObj [(''user'', JStr ''ann'')]), [1, 0])"
    by (simp add: example_log_def heap_get_def plain_store_def primitive_json_def member_def
        numeral_2_eq_2)
  from json_tree_round_trip [OF a m, of "example_world []"] a m
  show ?thesis by (simp add: example_log_def)
qed

text \<open>
  C10. In \<open>json\<close> rendering, an object that the serialisation has already
  met is replaced by the marker \<open>[circular]\<close> when it is met again, cycle or
  not. Take two paths of keys and indices that lead from \<open>args\<close> or \<open>meta\<close> to
  the same object, the first serialised before the second: the first starts in
  \<open>args\<close> and the second in \<open>meta\<close>, or both start in the same field, the first
  goes through no object twice, and the second continues the first or leaves it
  at a property or an index that comes later in the object where they part.
  Then rendering returns a text, and in the rendered document the second path
  is cut by the marker: some prefix of it ends at the string \<open>[circular]\<close>.
  With \<open>meta = {a: o, b: o}\<close> the member \<open>b\<close> is the marker, and with
  \<open>args = [o]\<close> and \<open>meta = {o: o}\<close> the member \<open>o\<close> of \<open>meta\<close> is.
\<close>

theorem repeated_reference_marked:
  assumes "(k1, v1) = (''args'', args l) \<or> (k1, v1) = (''meta'', meta l)"
    and "(k2, v2) = (''args'', args l) \<or> (k2, v2) = (''meta'', meta l)"
    and "follow h v1 p1 = Some (Ref a)"
    and "follow h v2 p2 = Some (Ref a)"
    and "k1 = ''args'' \<and> k2 = ''meta'' \<or>
         k1 = k2 \<and> distinct (visits h v1 p1) \<and> path_before h v1 p1 p2"
  shows "\<exists>j k. render w h l (Template ''json'') = (Inr (Str (json_text j)), w) \<and>
           k \<le> length p2 \<and>
           jfollow j (Key k2 # take k p2) = Some (JStr circular_marker)"
proof -
  from message_json_parts [of h "toMessage l"] obtain jargs c1 jmeta c2 where
    sa: "ser_value (Suc (length h)) h [] [] (args l) = Some (Inr (jargs, c1))" and
    sm: "ser_value (Suc (length h)) h [] c1 (meta l) = Some (Inr (jmeta, c2))" and
    mj: "message_json (Suc (length h)) h (toMessage l) =
       Some (Inr (JObj
         (member ''args'' jargs
          @ member ''caller'' (Some (case caller l of None \<Rightarrow> JNull | Some c \<Rightarrow> caller_json c))
          @ member ''date'' (Some (JNum (date l)))
          @ member ''level'' (Some (JStr (level_text (level l))))
          @ member ''meta'' jmeta
          @ member ''name'' (map_option JStr (name l)))))"
    by auto
  let ?J = "JObj
         (member ''args'' jargs
          @ member ''caller'' (Some (case caller l of None \<Rightarrow> JNull | Some c \<Rightarrow> caller_json c))
          @ member ''date'' (Some (JNum (date l)))
          @ member ''level'' (Some (JStr (level_text (level l))))
          @ member ''meta'' jmeta
          @ member ''name'' (map_option JStr (name l)))"
  have cl0: "closed_cache h [] []" by simp
  from ser_value_closed [OF sa cl0] have cl1: "closed_cache h c1 []" .
  have "\<exists>jr k. jchild ?J (Key k2) = Some jr \<and> k \<le> length p2 \<and>
          jfollow jr (take k p2) = Some (JStr circular_marker)"
    using assms(5)
  proof
    assume "k1 = ''args'' \<and> k2 = ''meta''"
    with assms(1,2) have v1: "v1 = args l" and v2: "v2 = meta l" and k2: "k2 = ''meta''" by auto
    from ser_value_reach [OF sa cl0 assms(3) [unfolded v1]] have "a \<in> set c1" by simp
    then have cond: "a \<in> set c1 \<or>
        (\<exists>q1 q2. p2 = q1 @ q2 \<and> q2 \<noteq> [] \<and> follow h (meta l) q1 = Some (Ref a))" by simp
    from assms(4) v2 obtain b where "meta l = Ref b" using follow_is_ref by blast
    with sm ser_value_ref_pushed [of "Suc (length h)" h "[]" c1 b jmeta c2]
    obtain jr where jr: "jmeta = Some jr" by auto
    from marker_on_path [OF assms(4) [unfolded v2] cond sm [unfolded jr]]
    obtain k where "k \<le> length p2" "jfollow jr (take k p2) = Some (JStr circular_marker)" by blast
    moreover have "jchild ?J (Key k2) = Some jr"
      unfolding k2 jr by (rule jchild_message)
    ultimately show ?thesis by blast
  next
    assume same: "k1 = k2 \<and> distinct (visits h v1 p1) \<and> path_before h v1 p1 p2"
    with assms(1,2) have v: "v2 = v1" by auto
    from assms(3) obtain b where vb: "v1 = Ref b" using follow_is_ref by blast
    have "\<exists>c c' jr. closed_cache h c [] \<and>
            ser_value (Suc (length h)) h [] c v1 = Some (Inr (Some jr, c')) \<and>
            jchild ?J (Key k2) = Some jr"
      using assms(1)
    proof
      assume k: "(k1, v1) = (''args'', args l)"
      with sa vb ser_value_ref_pushed [of "Suc (length h)" h "[]" "[]" b jargs c1]
      obtain jr where jr: "jargs = Some jr" by auto
      have "jchild ?J (Key ''args'') = jargs" by (rule jchild_message)
      with k same jr have jc: "jchild ?J (Key k2) = Some jr" by simp
      from k sa jr have "ser_value (Suc (length h)) h [] [] v1 = Some (Inr (Some jr, c1))"
        by (simp del: ser_value.simps)
      with cl0 jc show ?thesis by blast
    next
      assume k: "(k1, v1) = (''meta'', meta l)"
      with sm vb ser_value_ref_pushed [of "Suc (length h)" h "[]" c1 b jmeta c2]
      obtain jr where jr: "jmeta = Some jr" by auto
      have "jchild ?J (Key ''meta'') = jmeta" by (rule jchild_message)
      with k same jr have jc: "jchild ?J (Key k2) = Some jr" by simp
      from k sm jr have "ser_value (Suc (length h)) h [] c1 v1 = Some (Inr (Some jr, c2))"
        by (simp del: ser_value.simps)
      with cl1 jc show ?thesis by blast
    qed
    then obtain c c' jr where cl: "closed_cache h c []"
      and sr: "ser_value (Suc (length h)) h [] c v1 = Some (Inr (Some jr, c'))"
      and jc: "jchild ?J (Key k2) = Some jr" by blast
    from same have d: "distinct (visits h v1 p1)" and pb: "path_before h v1 p1 p2" by simp_all
    have off: "set (visits h v1 p1) \<inter> set [] = {}" by simp
    from later_path_marked [OF sr cl assms(3) assms(4) [unfolded v] d off pb]
    obtain k where "k \<le> length p2" "jfollow jr (take k p2) = Some (JStr circular_marker)" by blast
    with jc show ?thesis by blast
  qed
  then obtain jr k where jc: "jchild ?J (Key k2) = Some jr" and k: "k \<le> length p2"
    and mk: "jfollow jr (take k p2) = Some (JStr circular_marker)" by blast
  from jc mk have "jfollow ?J (Key k2 # take k p2) = Some (JStr circular_marker)" by simp
  with render_json [OF mj, of w] k show ?thesis by blast
qed

theorem repeated_reference_marked_witness:
  "follow crossed_store (args (example_log [])) [Index 0] = Some (Ref 2)
   \<and> follow crossed_store (meta (example_log [])) [Key ''o''] = Some (Ref 2)
   \<and> render (example_world []) crossed_store (example_log []) (Template ''json'') =
       (Inr (Str (json_text crossed_rendering)), example_world [])
   \<and> jfollow crossed_rendering [Key ''args'', Index 0] = Some (JObj [(''k'', JNum 1)])
   \<and> jfollow crossed_rendering [Key ''meta'', Key ''o''] = Some (JStr circular_marker)
   \<and> (\<exists>j k. render (example_world []) crossed_store (example_log []) (Template ''json'') =
               (Inr (Str (json_text j)), example_world []) \<and>
             k \<le> length [Key ''o''] \<and>
             jfollow j (Key ''meta'' # take k [Key ''o'']) = Some (JStr circular_marker))
   \<and> follow shared_store (meta (example_log [])) [Key ''a''] = Some (Ref 2)
   \<and> follow shared_store (meta (example_log [])) [Key ''b''] = Some (Ref 2)
   \<and> distinct (visits shared_store (meta (example_log [])) [Key ''a''])
   \<and> path_before shared_store (meta (example_log [])) [Key ''a''] [Key ''b'']
   \<and> render (example_world []) shared_store (example_log []) (Template ''json'') =
       (Inr (Str (json_text shared_rendering)), example_world [])
   \<and> jfollow shared_rendering [Key ''meta'', Key ''a''] = Some (JObj [(''k'', JNum 1)])
   \<and> jfollow shared_rendering [Key ''meta'', Key ''b''] = Some (JStr circular_marker)
   \<and> (\<exists>j k. render (example_world []) shared_store (example_log []) (Template ''json'') =
               (Inr (Str (json_text j)), example_world []) \<and>
             k \<le> length [Key ''b''] \<and>
             jfollow j (Key ''meta'' # take k [Key ''b'']) = Some (JStr circular_marker))"
proof -
  let ?l = "example_log []"
  have ka: "(''args'', args ?l) = (''args'', args ?l) \<or> (''args'', args ?l) = (''meta'', meta ?l)"
    by simp
  have km: "(''meta'', meta ?l) = (''args'', args ?l) \<or> (''meta'', meta ?l) = (''meta'', meta ?l)"
    by simp
  have c1: "follow crossed_store (args ?l) [Index 0] = Some (Ref 2)"
    by (simp add: example_log_def child_def heap_get_def crossed_store_def)
  have c2: "follow crossed_store (meta ?l) [Key ''o''] = Some (Ref 2)"
    by (simp add: example_log_def child_def heap_get_def crossed_store_def)
  have c3: "''args'' = ''args'' \<and> ''meta'' = ''meta'' \<or>
      ''args'' = ''meta'' \<and> distinct (visits crossed_store (args ?l) [Index 0]) \<and>
        path_before crossed_store (args ?l) [Index 0] [Key ''o'']"
    by simp
  have c4: "render (example_world []) crossed_store ?l (Template ''json'') =
       (Inr (Str (json_text crossed_rendering)), example_world [])"
    by (rule render_json [OF render_json_crossed])
  have c5: "jfollow crossed_rendering [Key ''args'', Index 0] = Some (JObj [(''k'', JNum 1)])"
    by (simp add: crossed_rendering_def jchild_def)
  have c6: "jfollow crossed_rendering [Key ''meta'', Key ''o''] = Some (JStr circular_marker)"
    by (simp add: crossed_rendering_def jchild_def circular_marker_def)
  have s1: "follow shared_store (meta ?l) [Key ''a''] = Some (Ref 2)"
    by (simp add: example_log_def child_def heap_get_def shared_store_def)
  have s2: "follow shared_store (meta ?l) [Key ''b''] = Some (Ref 2)"
    by (simp add: example_log_def child_def heap_get_def shared_store_def)
  have s3: "distinct (visits shared_store (meta ?l) [Key ''a''])"
    by (simp add: example_log_def child_def heap_get_def shared_store_def)
  have s4: "path_before shared_store (meta ?l) [Key ''a''] [Key ''b'']"
    by (simp add: example_log_def step_before_def position_def heap_get_def shared_store_def)
  from s3 s4 have s5: "''meta'' = ''args'' \<and> ''meta'' = ''meta'' \<or>
      ''meta'' = ''meta'' \<and> distinct (visits shared_store (meta ?l) [Key ''a'']) \<and>
        path_before shared_store (meta ?l) [Key ''a''] [Key ''b'']"
    by simp
  have s6: "render (example_world []) shared_store ?l (Template ''json'') =
       (Inr (Str (json_text shared_rendering)), example_world [])"
    by (rule render_json [OF render_json_shared])
  have s7: "jfollow shared_rendering [Key ''meta'', Key ''a''] = Some (JObj [(''k'', JNum 1)])"
    by (simp add: shared_rendering_def jchild_def)
  have s8: "jfollow shared_rendering [Key ''meta'', Key ''b''] = Some (JStr circular_marker)"
    by (simp add: shared_rendering_def jchild_def circular_marker_def)
  note crossed = repeated_reference_marked [OF ka km c1 c2 c3, of "example_world []"]
  note shared = repeated_reference_marked [OF km km s1 s2 s5, of "example_world []"]
  from crossed shared c1 c2 c4 c5 c6 s1 s2 s3 s4 s6 s7 s8 show ?thesis by simp
qed

end
